theory Spec2Isabelle
  imports Main "HOL-Library.Word" "HOL-Library.Sublist"
begin

unbundle bit_operations_syntax

section \<open>The octree colour quantizer of \<^verbatim>\<open>octree_quantizer.py\<close>\<close>

text \<open>
  The quantizer builds a sparse tree of arity 8 from a stream of colours, folds the
  tree bottom-up until few enough leaves remain, numbers the leaves and answers
  lookups by descending the tree.

  Python integers are unbounded: channels, sums, counts, indices and the depth limit
  are \<^typ>\<open>int\<close>. The \<^verbatim>\<open>level\<close> argument starts at 0 in every caller and only ever
  grows by one, so it is a \<^typ>\<open>nat\<close>.
\<close>

subsection \<open>Colours and nodes\<close>

record Color =
  red :: int
  green :: int
  blue :: int
  alpha :: "int option"

text \<open>\<^verbatim>\<open>Color(red, green, blue)\<close>: the fourth argument defaults to \<^verbatim>\<open>None\<close>.\<close>

definition Color3 :: "int \<Rightarrow> int \<Rightarrow> int \<Rightarrow> Color" where
  "Color3 r g b = \<lparr>red = r, green = g, blue = b, alpha = None\<rparr>"

text \<open>
  A node owns its children: every node object is stored in exactly one slot of exactly
  one parent (or is the root), and slots are never cleared or reassigned. The object
  graph below a quantizer's root is therefore a tree, and the node is a tree value whose
  \<open>children\<close> field holds the 8 slots, \<open>None\<close> for an empty one.
\<close>

datatype OctreeNode =
  OctreeNode (color: Color) (pixel_count: int) (palette_index: int)
    (children: "OctreeNode option list")

text \<open>
  The level registry and the list returned by \<^verbatim>\<open>get_leaf_nodes\<close> hold references to
  node objects that also sit in the tree. A reference is modelled by the position of
  the node: the slot indices on the way from the root to it (\<open>[]\<close> is the root).
  Reading through a reference is \<open>node_at\<close>, writing through it is \<open>update_at\<close>, so a
  change made through the registry is seen by every later walk from the root, as in
  Python.
\<close>

type_synonym ref = "nat list"

datatype error = KeyError | ZeroDivisionError | DanglingReference

text \<open>
  \<open>KeyError\<close> and \<open>ZeroDivisionError\<close> are the Python exceptions the code can raise.
  \<open>DanglingReference\<close> is not a Python exception: it is the model's answer when a
  reference names no node, which no state built by the operations below contains.
\<close>

text \<open>\<^verbatim>\<open>self.children[index]\<close>. The slot list always has 8 entries and every index the
  code computes is below 8; outside the list the model reads an empty slot.\<close>

definition child_at :: "OctreeNode \<Rightarrow> nat \<Rightarrow> OctreeNode option" where
  "child_at self index =
     (if index < length (children self) then children self ! index else None)"

text \<open>\<^verbatim>\<open>self.children[index] = node\<close>\<close>

definition set_child :: "OctreeNode \<Rightarrow> nat \<Rightarrow> OctreeNode \<Rightarrow> OctreeNode" where
  "set_child self index node =
     OctreeNode (color self) (pixel_count self) (palette_index self)
       ((children self)[index := Some node])"

fun node_at :: "OctreeNode \<Rightarrow> ref \<Rightarrow> OctreeNode option" where
  "node_at self [] = Some self"
| "node_at self (i # r) =
     (case child_at self i of None \<Rightarrow> None | Some ch \<Rightarrow> node_at ch r)"

fun update_at :: "ref \<Rightarrow> (OctreeNode \<Rightarrow> OctreeNode) \<Rightarrow> OctreeNode \<Rightarrow> OctreeNode" where
  "update_at [] f self = f self"
| "update_at (i # r) f self =
     (case child_at self i of None \<Rightarrow> self
      | Some ch \<Rightarrow> set_child self i (update_at r f ch))"

text \<open>\<^verbatim>\<open>is_leaf\<close>\<close>

definition is_leaf :: "OctreeNode \<Rightarrow> bool" where
  "is_leaf self = (pixel_count self > 0)"

text \<open>\<^verbatim>\<open>get_color_index_for_level\<close>: \<^verbatim>\<open>mask = 0x80 >> level\<close>, then one bit per channel.\<close>

definition get_color_index_for_level :: "Color \<Rightarrow> nat \<Rightarrow> nat" where
  "get_color_index_for_level c level =
     (let index = (0::nat);
          mask = drop_bit level (128::int);
          index = (if red c AND mask \<noteq> 0 then index OR 4 else index);
          index = (if green c AND mask \<noteq> 0 then index OR 2 else index);
          index = (if blue c AND mask \<noteq> 0 then index OR 1 else index)
      in index)"

text \<open>\<^verbatim>\<open>get_color\<close>: floor division by the pixel count; Python raises on a zero divisor.\<close>

definition get_color :: "OctreeNode \<Rightarrow> error + Color" where
  "get_color self =
     (if pixel_count self = 0 then Inl ZeroDivisionError
      else Inr (Color3 (red (color self) div pixel_count self)
                       (green (color self) div pixel_count self)
                       (blue (color self) div pixel_count self)))"

text \<open>
  \<^verbatim>\<open>get_leaf_nodes\<close>: the loop over the slots in order; an existing child is appended
  when it is a leaf and searched otherwise. The result lists references, so the walk
  carries the reference of the node it is at.
\<close>

fun get_leaf_nodes :: "OctreeNode \<Rightarrow> ref \<Rightarrow> ref list"
  and leaf_nodes_from :: "OctreeNode option list \<Rightarrow> ref \<Rightarrow> nat \<Rightarrow> ref list" where
  "get_leaf_nodes (OctreeNode c pc pi cs) r = leaf_nodes_from cs r 0"
| "leaf_nodes_from [] r i = []"
| "leaf_nodes_from (None # cs) r i = leaf_nodes_from cs r (Suc i)"
| "leaf_nodes_from (Some node # cs) r i =
     (if is_leaf node then [r @ [i]] else get_leaf_nodes node (r @ [i]))
       @ leaf_nodes_from cs r (Suc i)"

text \<open>
  \<^verbatim>\<open>remove_leaves\<close>: the loop adds every existing child's sums and count to the node's
  own and counts the children; the method returns the count less one.
\<close>

fun fold_children :: "OctreeNode option list \<Rightarrow> Color \<Rightarrow> int \<Rightarrow> int \<Rightarrow> Color \<times> int \<times> int" where
  "fold_children [] col pc result = (col, pc, result)"
| "fold_children (None # cs) col pc result = fold_children cs col pc result"
| "fold_children (Some node # cs) col pc result =
     fold_children cs
       (col\<lparr>red := red col + red (color node),
            green := green col + green (color node),
            blue := blue col + blue (color node)\<rparr>)
       (pc + pixel_count node) (result + 1)"

definition remove_leaves :: "OctreeNode \<Rightarrow> OctreeNode \<times> int" where
  "remove_leaves self =
     (case fold_children (children self) (color self) (pixel_count self) 0 of
        (col, pc, result) \<Rightarrow>
          (OctreeNode col pc (palette_index self) (children self), result - 1))"

text \<open>
  \<^verbatim>\<open>get_palette_index\<close>: a leaf answers with its index; otherwise the child the colour
  selects, or, when that slot is empty, the first existing child; when the loop finds
  no child the method falls off its end and Python returns \<^verbatim>\<open>None\<close>.
\<close>

fun first_child :: "OctreeNode option list \<Rightarrow> OctreeNode option" where
  "first_child [] = None"
| "first_child (None # cs) = first_child cs"
| "first_child (Some node # cs) = Some node"

function get_palette_index :: "OctreeNode \<Rightarrow> Color \<Rightarrow> nat \<Rightarrow> int option" where
  "get_palette_index self c level =
     (if is_leaf self then Some (palette_index self)
      else (let index = get_color_index_for_level c level in
        case child_at self index of
          Some ch \<Rightarrow> get_palette_index ch c (level + 1)
        | None \<Rightarrow>
            (case first_child (children self) of
               Some ch \<Rightarrow> get_palette_index ch c (level + 1)
             | None \<Rightarrow> None)))"
  by pat_completeness auto
termination
proof -
  have slot: "Some ch \<in> set cs \<Longrightarrow> size ch < Suc (size_list (size_option size) cs)"
    for ch :: OctreeNode and cs
    by (induction cs) auto
  have first: "first_child cs = Some ch \<Longrightarrow> Some ch \<in> set cs" for ch cs
    by (induction cs rule: first_child.induct) auto
  have a: "child_at self i = Some ch \<Longrightarrow> size ch < size self" for self i ch
  proof -
    assume "child_at self i = Some ch"
    then have "i < length (children self)" "children self ! i = Some ch"
      by (auto simp: child_at_def split: if_splits)
    then have "Some ch \<in> set (children self)"
      by (metis nth_mem)
    then show ?thesis using slot [of ch "children self"] by (cases self) auto
  qed
  have b: "first_child (children self) = Some ch \<Longrightarrow> size ch < size self" for self ch
    using slot [of ch "children self"] first [of "children self" ch]
    by (cases self) auto
  show ?thesis
    by (relation "measure (\<lambda>(self, c, level). size self)") (auto simp: a b)
qed

subsection \<open>The quantizer\<close>

text \<open>
  \<^verbatim>\<open>OctreeQuantizer.MAX_DEPTH\<close> is an attribute of the class, not of an instance: the
  constructor assigns it and every node method reads it. It is the one piece of state
  shared by all quantizers, so each operation below takes its current value as the
  argument \<open>M\<close>, and the constructor returns the value it leaves behind.

  \<^verbatim>\<open>self.levels\<close> is a dictionary from depth to a list of node references.
\<close>

type_synonym levels = "int \<Rightarrow> ref list option"

record OctreeQuantizer =
  levels :: levels
  root :: OctreeNode

text \<open>\<^verbatim>\<open>add_level_node\<close>: \<^verbatim>\<open>self.levels[level].append(node)\<close>, a \<^verbatim>\<open>KeyError\<close> on a missing key.\<close>

definition add_level_node :: "levels \<Rightarrow> nat \<Rightarrow> ref \<Rightarrow> error + levels" where
  "add_level_node lv level node =
     (case lv (int level) of
        None \<Rightarrow> Inl KeyError
      | Some ns \<Rightarrow> Inr (lv(int level \<mapsto> ns @ [node])))"

text \<open>
  \<^verbatim>\<open>OctreeNode.__init__(level, parent)\<close>: a node with zero sums, zero count, palette
  index 0 and 8 empty slots, registered under \<^verbatim>\<open>level\<close> when
  \<^verbatim>\<open>level < MAX_DEPTH - 1\<close>. The argument \<open>self\<close> is the reference the new node will have.
\<close>

definition OctreeNode_init :: "int \<Rightarrow> nat \<Rightarrow> levels \<Rightarrow> ref \<Rightarrow> error + (OctreeNode \<times> levels)" where
  "OctreeNode_init M level lv self =
     (let node = OctreeNode (Color3 0 0 0) 0 0 (replicate 8 None) in
      if int level < M - 1 then
        (case add_level_node lv level self of
           Inl e \<Rightarrow> Inl e
         | Inr lv' \<Rightarrow> Inr (node, lv'))
      else Inr (node, lv))"

text \<open>
  \<^verbatim>\<open>OctreeNode.add_color(color, level, parent)\<close>. At \<^verbatim>\<open>level >= MAX_DEPTH\<close> the node
  takes the colour; otherwise a missing child is created with
  \<^verbatim>\<open>OctreeNode(level, parent)\<close> and the colour is passed down at \<^verbatim>\<open>level + 1\<close>.
\<close>

function add_color ::
  "int \<Rightarrow> OctreeNode \<Rightarrow> ref \<Rightarrow> levels \<Rightarrow> Color \<Rightarrow> nat \<Rightarrow> error + (OctreeNode \<times> levels)" where
  "add_color M self r lv c level =
     (if M \<le> int level then
        Inr (OctreeNode
               ((color self)\<lparr>red := red (color self) + red c,
                              green := green (color self) + green c,
                              blue := blue (color self) + blue c\<rparr>)
               (pixel_count self + 1) (palette_index self) (children self), lv)
      else
        (let index = get_color_index_for_level c level in
         case (case child_at self index of
                 None \<Rightarrow> OctreeNode_init M level lv (r @ [index])
               | Some ch \<Rightarrow> Inr (ch, lv)) of
           Inl e \<Rightarrow> Inl e
         | Inr (ch, lv1) \<Rightarrow>
             (case add_color M ch (r @ [index]) lv1 c (level + 1) of
                Inl e \<Rightarrow> Inl e
              | Inr (ch', lv2) \<Rightarrow> Inr (set_child self index ch', lv2))))"
  by pat_completeness auto
termination
  by (relation "measure (\<lambda>(M, self, r, lv, c, level). nat (M - int level))") auto

text \<open>
  \<^verbatim>\<open>OctreeQuantizer.__init__(max_depth)\<close>: assigns the class attribute, creates one
  empty list per depth in \<^verbatim>\<open>range(MAX_DEPTH)\<close> and the root with \<^verbatim>\<open>OctreeNode(0, self)\<close>.
  The result is the new value of the class attribute and the instance.
\<close>

definition OctreeQuantizer_init :: "int \<Rightarrow> error + (int \<times> OctreeQuantizer)" where
  "OctreeQuantizer_init max_depth =
     (let M = max_depth;
          lv = (\<lambda>i. if 0 \<le> i \<and> i < M then Some [] else None) in
      case OctreeNode_init M 0 lv [] of
        Inl e \<Rightarrow> Inl e
      | Inr (node, lv') \<Rightarrow> Inr (M, \<lparr>levels = lv', root = node\<rparr>))"

text \<open>\<^verbatim>\<open>get_leaves\<close>\<close>

definition get_leaves :: "OctreeQuantizer \<Rightarrow> ref list" where
  "get_leaves q = get_leaf_nodes (root q) []"

text \<open>\<^verbatim>\<open>OctreeQuantizer.add_color(color)\<close>\<close>

definition quantizer_add_color :: "int \<Rightarrow> OctreeQuantizer \<Rightarrow> Color \<Rightarrow> error + OctreeQuantizer" where
  "quantizer_add_color M q c =
     (case add_color M (root q) [] (levels q) c 0 of
        Inl e \<Rightarrow> Inl e
      | Inr (node, lv) \<Rightarrow> Inr \<lparr>levels = lv, root = node\<rparr>)"

text \<open>A sequence of \<^verbatim>\<open>add_color\<close> calls, stopping at the first exception.\<close>

fun add_colors :: "int \<Rightarrow> OctreeQuantizer \<Rightarrow> Color list \<Rightarrow> error + OctreeQuantizer" where
  "add_colors M q [] = Inr q"
| "add_colors M q (c # cs) =
     (case quantizer_add_color M q c of
        Inl e \<Rightarrow> Inl e
      | Inr q' \<Rightarrow> add_colors M q' cs)"

text \<open>\<^verbatim>\<open>node.remove_leaves()\<close> for a node reached through a registry reference.\<close>

definition remove_leaves_at :: "ref \<Rightarrow> OctreeNode \<Rightarrow> error + (OctreeNode \<times> int)" where
  "remove_leaves_at r t =
     (case node_at t r of
        None \<Rightarrow> Inl DanglingReference
      | Some node \<Rightarrow>
          (case remove_leaves node of
             (node', result) \<Rightarrow> Inr (update_at r (\<lambda>_. node') t, result)))"

text \<open>
  The inner loop of \<^verbatim>\<open>make_palette\<close>: the nodes of one level in registry order, leaving
  the loop as soon as \<^verbatim>\<open>leaf_count <= color_count\<close>.
\<close>

fun reduce_nodes :: "ref list \<Rightarrow> OctreeNode \<Rightarrow> int \<Rightarrow> int \<Rightarrow> error + (OctreeNode \<times> int)" where
  "reduce_nodes [] t leaf_count color_count = Inr (t, leaf_count)"
| "reduce_nodes (node # nodes) t leaf_count color_count =
     (case remove_leaves_at node t of
        Inl e \<Rightarrow> Inl e
      | Inr (t', result) \<Rightarrow>
          (let leaf_count = leaf_count - result in
           if leaf_count \<le> color_count then Inr (t', leaf_count)
           else reduce_nodes nodes t' leaf_count color_count))"

text \<open>
  The outer loop, \<^verbatim>\<open>for level in range(MAX_DEPTH - 1, -1, -1)\<close>: the first argument is
  the number of levels still to visit, so \<open>Suc level\<close> visits \<open>level\<close> next.
\<close>

fun reduce_levels :: "nat \<Rightarrow> OctreeQuantizer \<Rightarrow> int \<Rightarrow> int \<Rightarrow> error + (OctreeQuantizer \<times> int)" where
  "reduce_levels 0 q leaf_count color_count = Inr (q, leaf_count)"
| "reduce_levels (Suc level) q leaf_count color_count =
     (case levels q (int level) of
        None \<Rightarrow> Inl KeyError
      | Some nodes \<Rightarrow>
          if nodes \<noteq> [] then
            (case reduce_nodes nodes (root q) leaf_count color_count of
               Inl e \<Rightarrow> Inl e
             | Inr (t, leaf_count) \<Rightarrow>
                 if leaf_count \<le> color_count then Inr (q\<lparr>root := t\<rparr>, leaf_count)
                 else reduce_levels level
                        (q\<lparr>root := t, levels := (levels q)(int level \<mapsto> [])\<rparr>)
                        leaf_count color_count)
          else reduce_levels level q leaf_count color_count)"

text \<open>
  The palette loop over the list \<^verbatim>\<open>get_leaves()\<close> returned: it stops at
  \<^verbatim>\<open>palette_index >= color_count\<close>, appends the colour of a leaf and numbers the node.
  The local variable \<^verbatim>\<open>palette_index\<close> is \<open>next_index\<close> here, the field keeps its name.
\<close>

definition set_palette_index :: "int \<Rightarrow> OctreeNode \<Rightarrow> OctreeNode" where
  "set_palette_index i node =
     OctreeNode (color node) (pixel_count node) i (children node)"

fun build_palette ::
  "ref list \<Rightarrow> OctreeNode \<Rightarrow> Color list \<Rightarrow> int \<Rightarrow> int \<Rightarrow> error + (OctreeNode \<times> Color list)" where
  "build_palette [] t palette next_index color_count = Inr (t, palette)"
| "build_palette (node # nodes) t palette next_index color_count =
     (if next_index \<ge> color_count then Inr (t, palette)
      else
        (case node_at t node of
           None \<Rightarrow> Inl DanglingReference
         | Some n \<Rightarrow>
             (case (if is_leaf n
                    then (case get_color n of Inl e \<Rightarrow> Inl e | Inr col \<Rightarrow> Inr (palette @ [col]))
                    else Inr palette) of
                Inl e \<Rightarrow> Inl e
              | Inr palette' \<Rightarrow>
                  build_palette nodes (update_at node (set_palette_index next_index) t)
                    palette' (next_index + 1) color_count)))"

text \<open>\<^verbatim>\<open>make_palette(color_count)\<close>: the quantizer afterwards and the palette returned.\<close>

definition make_palette :: "int \<Rightarrow> OctreeQuantizer \<Rightarrow> int \<Rightarrow> error + (OctreeQuantizer \<times> Color list)" where
  "make_palette M q color_count =
     (let leaf_count = int (length (get_leaves q)) in
      case reduce_levels (nat M) q leaf_count color_count of
        Inl e \<Rightarrow> Inl e
      | Inr (q1, leaf_count') \<Rightarrow>
          (case build_palette (get_leaves q1) (root q1) [] 0 color_count of
             Inl e \<Rightarrow> Inl e
           | Inr (t, palette) \<Rightarrow> Inr (q1\<lparr>root := t\<rparr>, palette)))"

text \<open>\<^verbatim>\<open>OctreeQuantizer.get_palette_index(color)\<close>\<close>

definition quantizer_get_palette_index :: "OctreeQuantizer \<Rightarrow> Color \<Rightarrow> int option" where
  "quantizer_get_palette_index q c = get_palette_index (root q) c 0"

subsection \<open>Client programs\<close>

text \<open>A lookup on a quantizer that was constructed and never fed a colour.\<close>

definition lookup_on_fresh :: "int \<Rightarrow> Color \<Rightarrow> error + int option" where
  "lookup_on_fresh max_depth c =
     (case OctreeQuantizer_init max_depth of
        Inl e \<Rightarrow> Inl e
      | Inr (M, q) \<Rightarrow> Inr (quantizer_get_palette_index q c))"

text \<open>
  The three phases in order: construct, add every colour of the list, build the
  palette. The result is the quantizer afterwards and the palette.
\<close>

definition quantize :: "int \<Rightarrow> Color list \<Rightarrow> int \<Rightarrow> error + (OctreeQuantizer \<times> Color list)" where
  "quantize max_depth cs color_count =
     (case OctreeQuantizer_init max_depth of
        Inl e \<Rightarrow> Inl e
      | Inr (M, q) \<Rightarrow>
          (case add_colors M q cs of
             Inl e \<Rightarrow> Inl e
           | Inr q1 \<Rightarrow> make_palette M q1 color_count))"

text \<open>The same, followed by one lookup per query colour.\<close>

definition quantize_and_lookup ::
  "int \<Rightarrow> Color list \<Rightarrow> int \<Rightarrow> Color list \<Rightarrow> error + (Color list \<times> int option list)" where
  "quantize_and_lookup max_depth cs color_count queries =
     (case quantize max_depth cs color_count of
        Inl e \<Rightarrow> Inl e
      | Inr (q, palette) \<Rightarrow> Inr (palette, map (quantizer_get_palette_index q) queries))"

text \<open>
  Two quantizers in one program. The class attribute is shared, so the program state
  is its current value and the two instances. \<open>construct_two\<close> runs the two
  constructors one after the other.
\<close>

record two_quantizers =
  class_MAX_DEPTH :: int
  first :: OctreeQuantizer
  second :: OctreeQuantizer

definition construct_two :: "int \<Rightarrow> int \<Rightarrow> error + two_quantizers" where
  "construct_two m1 m2 =
     (case OctreeQuantizer_init m1 of
        Inl e \<Rightarrow> Inl e
      | Inr (M1, a) \<Rightarrow>
          (case OctreeQuantizer_init m2 of
             Inl e \<Rightarrow> Inl e
           | Inr (M2, b) \<Rightarrow> Inr \<lparr>class_MAX_DEPTH = M2, first = a, second = b\<rparr>))"

text \<open>
  The three phases on the first quantizer, after the second one was constructed: every
  method reads the class attribute as the program left it.
\<close>

definition quantize_first_of_two ::
  "int \<Rightarrow> int \<Rightarrow> Color list \<Rightarrow> int \<Rightarrow> Color list \<Rightarrow> error + (Color list \<times> int option list)" where
  "quantize_first_of_two m1 m2 cs color_count queries =
     (case construct_two m1 m2 of
        Inl e \<Rightarrow> Inl e
      | Inr w \<Rightarrow>
          (case add_colors (class_MAX_DEPTH w) (first w) cs of
             Inl e \<Rightarrow> Inl e
           | Inr q \<Rightarrow>
               (case make_palette (class_MAX_DEPTH w) q color_count of
                  Inl e \<Rightarrow> Inl e
                | Inr (q', palette) \<Rightarrow>
                    Inr (palette, map (quantizer_get_palette_index q') queries))))"

text \<open>One \<^verbatim>\<open>add_color\<close> on the first quantizer, after the second one was constructed.\<close>

definition first_add_after_second :: "int \<Rightarrow> int \<Rightarrow> Color \<Rightarrow> error + OctreeQuantizer" where
  "first_add_after_second m1 m2 c =
     (case construct_two m1 m2 of
        Inl e \<Rightarrow> Inl e
      | Inr w \<Rightarrow> quantizer_add_color (class_MAX_DEPTH w) (first w) c)"

text \<open>The registry lists under the given keys after construction and the given colours.\<close>

definition registry_after :: "int \<Rightarrow> Color list \<Rightarrow> int list \<Rightarrow> error + ref list option list" where
  "registry_after max_depth cs keys =
     (case OctreeQuantizer_init max_depth of
        Inl e \<Rightarrow> Inl e
      | Inr (M, q) \<Rightarrow>
          (case add_colors M q cs of
             Inl e \<Rightarrow> Inl e
           | Inr q1 \<Rightarrow> Inr (map (levels q1) keys)))"

subsection \<open>The specification's branch index\<close>

text \<open>
  The branch index in the specification's words: bit \<open>7 - level\<close> of red moved to
  position 2, of green to position 1, of blue to position 0.
\<close>

definition spec_branch_index :: "Color \<Rightarrow> nat \<Rightarrow> nat" where
  "spec_branch_index c level =
     push_bit 2 (of_bool (bit (red c) (7 - level)))
     OR push_bit 1 (of_bool (bit (green c) (7 - level)))
     OR of_bool (bit (blue c) (7 - level))"

section \<open>Notions used by the properties\<close>

text \<open>The node \<^verbatim>\<open>OctreeNode.__init__\<close> creates, and the node after the deepest branch of
  \<^verbatim>\<open>add_color\<close> took a colour.\<close>

definition fresh_node :: OctreeNode where
  "fresh_node = OctreeNode (Color3 0 0 0) 0 0 (replicate 8 None)"

definition bump :: "OctreeNode \<Rightarrow> Color \<Rightarrow> OctreeNode" where
  "bump self c = OctreeNode
               ((color self)\<lparr>red := red (color self) + red c,
                              green := green (color self) + green c,
                              blue := blue (color self) + blue c\<rparr>)
               (pixel_count self + 1) (palette_index self) (children self)"

text \<open>Every node of a tree has its 8 slots and a count that is not negative.\<close>

definition wf_tree :: "OctreeNode \<Rightarrow> bool" where
  "wf_tree t = (\<forall>p n. node_at t p = Some n \<longrightarrow> length (children n) = 8 \<and> 0 \<le> pixel_count n)"

text \<open>The slot indices \<^verbatim>\<open>add_color\<close> follows for a colour from \<open>level\<close> down to the depth
  limit: one branch index per level below \<^verbatim>\<open>MAX_DEPTH\<close>.\<close>

definition route :: "int \<Rightarrow> Color \<Rightarrow> nat \<Rightarrow> ref" where
  "route M c level = map (get_color_index_for_level c) [level..<nat M]"

text \<open>The palette index and the pixel count of the node a reference names.\<close>

definition pi_at :: "OctreeNode \<Rightarrow> ref \<Rightarrow> int option" where
  "pi_at t p = map_option palette_index (node_at t p)"

definition pc_at :: "OctreeNode \<Rightarrow> ref \<Rightarrow> int option" where
  "pc_at t p = map_option pixel_count (node_at t p)"

text \<open>A function of a node that does not look at the children.\<close>

definition flat :: "(OctreeNode \<Rightarrow> 'a) \<Rightarrow> bool" where
  "flat g = (\<forall>c pc pi cs cs'. g (OctreeNode c pc pi cs) = g (OctreeNode c pc pi cs'))"

text \<open>A reference names a leaf; \<open>first_leaf\<close>: it names a leaf below the root with no leaf
  strictly between the root and it. These are the leaves \<^verbatim>\<open>get_leaf_nodes\<close> lists
  (\<open>leaf_nodes_sets\<close> below), \<open>slot_leaf\<close> being the same for a slot list.\<close>

definition leaf_at :: "OctreeNode \<Rightarrow> ref \<Rightarrow> bool" where
  "leaf_at t p = (case node_at t p of None \<Rightarrow> False | Some n \<Rightarrow> is_leaf n)"

definition first_leaf :: "OctreeNode \<Rightarrow> ref \<Rightarrow> bool" where
  "first_leaf t p = (p \<noteq> [] \<and> leaf_at t p \<and> (\<forall>q. q \<noteq> [] \<and> strict_prefix q p \<longrightarrow> \<not> leaf_at t q))"

definition slot_leaf :: "OctreeNode option list \<Rightarrow> nat \<Rightarrow> ref \<Rightarrow> bool" where
  "slot_leaf cs j p =
     (j < length cs \<and> (case cs ! j of None \<Rightarrow> False
        | Some ch \<Rightarrow> if is_leaf ch then p = [] else first_leaf ch p))"

text \<open>The floor average \<^verbatim>\<open>get_color\<close> computes, and the average of the node a reference names.\<close>

definition average :: "OctreeNode \<Rightarrow> Color" where
  "average n = Color3 (red (color n) div pixel_count n)
                      (green (color n) div pixel_count n)
                      (blue (color n) div pixel_count n)"

definition avg_at :: "OctreeNode \<Rightarrow> ref \<Rightarrow> Color option" where
  "avg_at t p = map_option average (node_at t p)"

text \<open>The tree after the palette loop numbered the listed nodes from \<open>k\<close> on.\<close>

fun number_leaves :: "ref list \<Rightarrow> int \<Rightarrow> OctreeNode \<Rightarrow> OctreeNode" where
  "number_leaves [] k t = t"
| "number_leaves (r # rs) k t = number_leaves rs (k + 1) (update_at r (set_palette_index k) t)"

text \<open>The children that exist, in slot order.\<close>

fun existing :: "OctreeNode option list \<Rightarrow> OctreeNode list" where
  "existing [] = []"
| "existing (None # cs) = existing cs"
| "existing (Some node # cs) = node # existing cs"

text \<open>The relation between a tree and the same tree after some nodes absorbed their
  children: the same nodes, the same palette indices, no count smaller.\<close>

definition grows :: "OctreeNode \<Rightarrow> OctreeNode \<Rightarrow> bool" where
  "grows t t' =
     ((\<forall>p. (node_at t' p = None) = (node_at t p = None)) \<and>
      (\<forall>p. pi_at t' p = pi_at t p) \<and>
      (\<forall>p k. pc_at t p = Some k \<longrightarrow> (\<exists>k'. pc_at t' p = Some k' \<and> k \<le> k')))"

text \<open>What the level registry holds after construction and any number of \<^verbatim>\<open>add_color\<close>
  calls under the depth limit \<open>M\<close>: a key for every depth in \<open>range(M)\<close>; under a key
  \<open>i < M - 1\<close> every node of depth \<open>i + 1\<close> exactly once, and under key 0 the root in
  front of them; nothing under key \<open>M - 1\<close>.\<close>

definition registry :: "int \<Rightarrow> OctreeNode \<Rightarrow> levels \<Rightarrow> bool" where
  "registry M t lv =
     (\<forall>i. if 0 \<le> i \<and> i < M
           then (\<exists>ns. lv i = Some ns \<and> distinct ns \<and>
                  set ns = (if i < M - 1
                            then {p. node_at t p \<noteq> None \<and> int (length p) = i + 1}
                                   \<union> (if i = 0 then {[]} else {})
                            else {}) \<and>
                  (i = 0 \<and> i < M - 1 \<longrightarrow> (\<exists>ns'. ns = [] # ns')))
           else lv i = None)"

text \<open>The state of a quantizer between construction and \<^verbatim>\<open>make_palette\<close>: a well-formed
  tree, a registry as above, every palette index still 0 and every count above the
  depth limit still 0.\<close>

definition built :: "int \<Rightarrow> OctreeQuantizer \<Rightarrow> bool" where
  "built M q =
     (wf_tree (root q) \<and> registry M (root q) (levels q) \<and>
      (\<forall>p k. pi_at (root q) p = Some k \<longrightarrow> k = 0) \<and>
      (\<forall>p k. pc_at (root q) p = Some k \<and> int (length p) < M \<longrightarrow> k = 0))"

text \<open>
  The slot number of the first existing child, and the reference of the node at which
  \<^verbatim>\<open>get_palette_index\<close> stops: the method with the same tests and the same choice of
  child, returning where it ends instead of the index stored there
  (\<open>get_palette_index_descent\<close> below).
\<close>

fun first_index :: "OctreeNode option list \<Rightarrow> nat option" where
  "first_index [] = None"
| "first_index (None # cs) = map_option Suc (first_index cs)"
| "first_index (Some node # cs) = Some 0"

function descent :: "OctreeNode \<Rightarrow> Color \<Rightarrow> nat \<Rightarrow> ref option" where
  "descent self c level =
     (if is_leaf self then Some []
      else (let index = get_color_index_for_level c level in
        case child_at self index of
          Some ch \<Rightarrow> map_option ((#) index) (descent ch c (level + 1))
        | None \<Rightarrow>
            (case first_index (children self) of
               Some i \<Rightarrow>
                 (case child_at self i of
                    Some ch \<Rightarrow> map_option ((#) i) (descent ch c (level + 1))
                  | None \<Rightarrow> None)
             | None \<Rightarrow> None)))"
  by pat_completeness auto
termination
proof -
  have slot: "Some ch \<in> set cs \<Longrightarrow> size ch < Suc (size_list (size_option size) cs)"
    for ch :: OctreeNode and cs
    by (induction cs) auto
  have a: "child_at self i = Some ch \<Longrightarrow> size ch < size self" for self i ch
  proof -
    assume "child_at self i = Some ch"
    then have "i < length (children self)" "children self ! i = Some ch"
      by (auto simp: child_at_def split: if_splits)
    then have "Some ch \<in> set (children self)"
      by (metis nth_mem)
    then show ?thesis using slot [of ch "children self"] by (cases self) auto
  qed
  show ?thesis
    by (relation "measure (\<lambda>(self, c, level). size self)") (auto simp: a)
qed

text \<open>
  What \<^verbatim>\<open>reduce_levels\<close> needs for the root to keep a zero count: registered references
  exist, those under a key of 1 or more are at least two slots deep, and the list under
  key 0 is empty or has the root in front, once, while every child of the root still has
  a zero count.
\<close>

definition root_safe :: "nat \<Rightarrow> OctreeQuantizer \<Rightarrow> bool" where
  "root_safe n q =
     (wf_tree (root q) \<and> pc_at (root q) [] = Some 0 \<and>
      (\<forall>i. 0 \<le> i \<and> i < int n \<longrightarrow>
         (\<exists>ns. levels q i = Some ns \<and> (\<forall>r\<in>set ns. node_at (root q) r \<noteq> None) \<and>
            (1 \<le> i \<longrightarrow> (\<forall>r\<in>set ns. 2 \<le> length r)) \<and>
            (i = 0 \<longrightarrow> ns = [] \<or>
               ((\<exists>ns'. ns = [] # ns' \<and> [] \<notin> set ns') \<and>
                (\<forall>j k. pc_at (root q) [j] = Some k \<longrightarrow> k = 0))))))"

text \<open>
  The number of leaves the enumeration lists for a child: one when the child is a leaf,
  the leaves below it otherwise.
\<close>

definition leaves_under :: "OctreeNode \<Rightarrow> nat" where
  "leaves_under ch = (if is_leaf ch then 1 else length (get_leaf_nodes ch []))"

subsection \<open>Reports on a run\<close>

text \<open>
  After the three phases: the palette, the index looked up for a colour, the reference
  of the node the lookup ends at, the leaves in palette order and their averages.
\<close>

definition lookup_report ::
  "int \<Rightarrow> Color list \<Rightarrow> int \<Rightarrow> Color \<Rightarrow>
     error + (Color list \<times> int option \<times> ref option \<times> ref list \<times> Color option list)" where
  "lookup_report max_depth cs color_count c =
     (case quantize max_depth cs color_count of
        Inl e \<Rightarrow> Inl e
      | Inr (q, palette) \<Rightarrow>
          Inr (palette, quantizer_get_palette_index q c, descent (root q) c 0,
               get_leaves q, map (avg_at (root q)) (get_leaves q)))"

text \<open>
  \<^verbatim>\<open>remove_leaves\<close> called on the root of a tree as built: the value returned, whether
  the root is a leaf afterwards, and the number of leaves before and after.
\<close>

definition reduce_root_report :: "int \<Rightarrow> Color list \<Rightarrow> error + (int \<times> bool \<times> nat \<times> nat)" where
  "reduce_root_report max_depth cs =
     (case OctreeQuantizer_init max_depth of
        Inl e \<Rightarrow> Inl e
      | Inr (M, q0) \<Rightarrow>
          (case add_colors M q0 cs of
             Inl e \<Rightarrow> Inl e
           | Inr q \<Rightarrow>
               (case remove_leaves_at [] (root q) of
                  Inl e \<Rightarrow> Inl e
                | Inr (t', result) \<Rightarrow>
                    Inr (result, is_leaf t', length (get_leaf_nodes (root q) []),
                         length (get_leaf_nodes t' [])))))"

text \<open>
  The first half of \<^verbatim>\<open>make_palette\<close>, as the method runs it: the value of
  \<^verbatim>\<open>leaf_count\<close> when the reduction loop is left, the number of leaves the enumeration
  lists then, and whether the root is a leaf.
\<close>

definition reduction_report :: "int \<Rightarrow> Color list \<Rightarrow> int \<Rightarrow> error + (int \<times> nat \<times> bool)" where
  "reduction_report max_depth cs color_count =
     (case OctreeQuantizer_init max_depth of
        Inl e \<Rightarrow> Inl e
      | Inr (M, q0) \<Rightarrow>
          (case add_colors M q0 cs of
             Inl e \<Rightarrow> Inl e
           | Inr q \<Rightarrow>
               (case reduce_levels (nat M) q (int (length (get_leaves q))) color_count of
                  Inl e \<Rightarrow> Inl e
                | Inr (q1, leaf_count) \<Rightarrow>
                    Inr (leaf_count, length (get_leaves q1), is_leaf (root q1)))))"

text \<open>The tree after construction and the given colours.\<close>

definition built_tree :: "int \<Rightarrow> Color list \<Rightarrow> error + OctreeNode" where
  "built_tree max_depth cs =
     (case OctreeQuantizer_init max_depth of
        Inl e \<Rightarrow> Inl e
      | Inr (M, q0) \<Rightarrow>
          (case add_colors M q0 cs of
             Inl e \<Rightarrow> Inl e
           | Inr q \<Rightarrow> Inr (root q)))"

text \<open>
  The tree built under depth limit 2 from \<open>(0,0,0)\<close> and \<open>(0,0,64)\<close>: the root, one node of
  depth 1 and its two leaves; and the same tree after the node of depth 1 absorbed them.
\<close>

definition two_blues_inner :: OctreeNode where
  "two_blues_inner =
     OctreeNode (Color3 0 0 0) 0 0
       [Some (OctreeNode (Color3 0 0 0) 1 0 (replicate 8 None)),
        Some (OctreeNode (Color3 0 0 64) 1 0 (replicate 8 None)),
        None, None, None, None, None, None]"

definition two_blues_tree :: OctreeNode where
  "two_blues_tree =
     OctreeNode (Color3 0 0 0) 0 0
       [Some two_blues_inner, None, None, None, None, None, None, None]"

definition two_blues_reduced :: OctreeNode where
  "two_blues_reduced =
     OctreeNode (Color3 0 0 0) 0 0
       [Some (OctreeNode (Color3 0 0 64) 2 0 (children two_blues_inner)),
        None, None, None, None, None, None, None]"

section \<open>Properties\<close>

declare get_palette_index.simps [simp del] add_color.simps [simp del]

subsection \<open>Branch index and slot search\<close>

lemma mask_selects_bit:
  assumes "level \<le> 7"
  shows "(x AND drop_bit level (128::int) \<noteq> 0) = bit x (7 - level)"
proof -
  have "(128::int) = 2 ^ 7" by simp
  then have "drop_bit level (128::int) = 2 ^ (7 - level)"
    using assms by (simp only: drop_bit_exp_eq) simp
  then show ?thesis by (simp add: and_exp_eq_0_iff_not_bit)
qed

lemma get_color_index_is_branch_index:
  "level \<le> 7 \<Longrightarrow> get_color_index_for_level c level = spec_branch_index c level"
  by (simp add: get_color_index_for_level_def spec_branch_index_def mask_selects_bit Let_def)

lemma first_child_least:
  "i < length cs \<Longrightarrow> cs ! i = Some ch \<Longrightarrow> \<forall>j<i. cs ! j = None \<Longrightarrow> first_child cs = Some ch"
proof (induction cs arbitrary: i rule: first_child.induct)
  case 1
  then show ?case by simp
next
  case (2 cs)
  show ?case
  proof (cases i)
    case 0
    with 2 show ?thesis by simp
  next
    case (Suc k)
    with 2(2,3,4) have "k < length cs" "cs ! k = Some ch" "\<forall>j<k. cs ! j = None" by auto
    with 2(1) show ?thesis by simp
  qed
next
  case (3 node cs)
  then show ?case by (cases i) auto
qed

lemma first_child_replicate_None: "first_child (replicate n None) = None"
  by (induction n) auto

subsection \<open>A fresh quantizer\<close>

lemma OctreeQuantizer_init_value:
  "OctreeQuantizer_init m =
     Inr (m, \<lparr>levels = (if 0 < m - 1
                         then (\<lambda>i. if 0 \<le> i \<and> i < m then Some [] else None)(0 \<mapsto> [[]])
                         else (\<lambda>i. if 0 \<le> i \<and> i < m then Some [] else None)),
              root = OctreeNode (Color3 0 0 0) 0 0 (replicate 8 None)\<rparr>)"
  by (auto simp: OctreeQuantizer_init_def OctreeNode_init_def add_level_node_def Let_def)

subsection \<open>Slots, fresh nodes and one step of \<^verbatim>\<open>add_color\<close>\<close>

lemma index_lt_8: "get_color_index_for_level c level < 8"
  by (simp add: get_color_index_for_level_def Let_def)

lemma child_at_set_child:
  "i < length (children self) \<Longrightarrow>
     child_at (set_child self i n) j = (if j = i then Some n else child_at self j)"
  by (simp add: child_at_def set_child_def)

lemma set_child_fields [simp]:
  "color (set_child self i n) = color self"
  "pixel_count (set_child self i n) = pixel_count self"
  "palette_index (set_child self i n) = palette_index self"
  "length (children (set_child self i n)) = length (children self)"
  by (simp_all add: set_child_def)

lemma child_at_lt: "child_at self i = Some ch \<Longrightarrow> i < length (children self)"
  by (simp add: child_at_def split: if_splits)

lemma node_at_set_child_Cons:
  "i < length (children self) \<Longrightarrow>
     node_at (set_child self i n) (j # p) = (if j = i then node_at n p else node_at self (j # p))"
  by (simp add: child_at_set_child node_at.simps)

lemma OctreeNode_init_cases:
  assumes "OctreeNode_init M level lv self = Inr (node, lv')"
  shows "node = fresh_node \<and>
         (if int level < M - 1
          then (\<exists>ns. lv (int level) = Some ns \<and> lv' = lv(int level \<mapsto> ns @ [self]))
          else lv' = lv)"
  using assms
  by (auto simp: OctreeNode_init_def add_level_node_def fresh_node_def Let_def
           split: if_splits option.splits sum.splits)

lemma add_color_leaf:
  "M \<le> int level \<Longrightarrow> add_color M self r lv c level = Inr (bump self c, lv)"
  by (subst add_color.simps) (simp add: bump_def)

lemma add_color_stepE:
  assumes "add_color M self r lv c level = Inr (self', lv')" and "\<not> M \<le> int level"
  obtains ch lv1 ch' where
    "(case child_at self (get_color_index_for_level c level) of
        None \<Rightarrow> OctreeNode_init M level lv (r @ [get_color_index_for_level c level])
      | Some ch \<Rightarrow> Inr (ch, lv)) = Inr (ch, lv1)"
    "add_color M ch (r @ [get_color_index_for_level c level]) lv1 c (level + 1) = Inr (ch', lv')"
    "self' = set_child self (get_color_index_for_level c level) ch'"
  using assms
  by (subst (asm) add_color.simps) (auto simp: Let_def split: sum.splits prod.splits)

text \<open>Rule induction over the successful runs of \<^verbatim>\<open>add_color\<close>.\<close>

lemma add_color_result_induct [consumes 1, case_names leaf step]:
  assumes run: "add_color M self r lv c level = Inr (self', lv')"
    and leaf: "\<And>self r lv level. M \<le> int level \<Longrightarrow> P self r lv level (bump self c) lv"
    and step: "\<And>self r lv level ch lv1 ch' lv2.
        int level < M \<Longrightarrow>
        (case child_at self (get_color_index_for_level c level) of
           None \<Rightarrow> OctreeNode_init M level lv (r @ [get_color_index_for_level c level])
         | Some ch \<Rightarrow> Inr (ch, lv)) = Inr (ch, lv1) \<Longrightarrow>
        add_color M ch (r @ [get_color_index_for_level c level]) lv1 c (level + 1) = Inr (ch', lv2) \<Longrightarrow>
        P ch (r @ [get_color_index_for_level c level]) lv1 (level + 1) ch' lv2 \<Longrightarrow>
        P self r lv level (set_child self (get_color_index_for_level c level) ch') lv2"
  shows "P self r lv level self' lv'"
  using run
proof (induction "nat (M - int level)" arbitrary: self r lv level self' lv')
  case 0
  then have "M \<le> int level" by simp
  with "0.prems" leaf [of level self r lv] show ?case by (auto simp: add_color_leaf)
next
  case (Suc k)
  then have False: "\<not> M \<le> int level" by simp
  from Suc.prems False obtain ch lv1 ch' where
    f: "(case child_at self (get_color_index_for_level c level) of
      None \<Rightarrow> OctreeNode_init M level lv (r @ [get_color_index_for_level c level])
    | Some ch \<Rightarrow> Inr (ch, lv)) = Inr (ch, lv1)"
    and rec: "add_color M ch (r @ [get_color_index_for_level c level]) lv1 c (level + 1) = Inr (ch', lv')"
    and res: "self' = set_child self (get_color_index_for_level c level) ch'"
    by (rule add_color_stepE)
  from Suc.hyps(2) have "k = nat (M - int (level + 1))" by simp
  from Suc.hyps(1) [OF this rec]
  have "P ch (r @ [get_color_index_for_level c level]) lv1 (level + 1) ch' lv'" .
  with step [OF _ f rec] False res show ?case by simp
qed

declare node_at.simps(2) [simp del]

lemmas node_at_Cons = node_at.simps(2)

subsection \<open>Well-formed trees\<close>

lemma child_at_fresh [simp]: "child_at fresh_node i = None"
  by (simp add: child_at_def fresh_node_def)

lemma node_at_fresh: "node_at fresh_node p = (if p = [] then Some fresh_node else None)"
  by (cases p) (simp_all add: node_at_Cons)

lemma wf_tree_root: "wf_tree t \<Longrightarrow> length (children t) = 8 \<and> 0 \<le> pixel_count t"
  unfolding wf_tree_def by (erule allE [of _ "[]"]) simp

lemma wf_tree_child: "wf_tree t \<Longrightarrow> child_at t i = Some ch \<Longrightarrow> wf_tree ch"
  unfolding wf_tree_def
proof (intro allI impI)
  fix p n
  assume a: "\<forall>p n. node_at t p = Some n \<longrightarrow> length (children n) = 8 \<and> 0 \<le> pixel_count n"
    and c: "child_at t i = Some ch" and n: "node_at ch p = Some n"
  from c n have "node_at t (i # p) = Some n" by (simp add: node_at_Cons)
  with a show "length (children n) = 8 \<and> 0 \<le> pixel_count n" by blast
qed

lemma wf_tree_fresh: "wf_tree fresh_node"
  unfolding wf_tree_def by (auto simp: node_at_fresh) (simp_all add: fresh_node_def)

lemma node_at_same_children:
  "children n' = children n \<Longrightarrow> node_at n' (j # p) = node_at n (j # p)"
  by (simp add: child_at_def node_at_Cons)

lemma bump_fields [simp]:
  "children (bump t c) = children t"
  "pixel_count (bump t c) = pixel_count t + 1"
  "palette_index (bump t c) = palette_index t"
  by (simp_all add: bump_def)

lemma wf_tree_bump: "wf_tree t \<Longrightarrow> wf_tree (bump t c)"
  unfolding wf_tree_def
proof (intro allI impI)
  fix p n
  assume a: "\<forall>p n. node_at t p = Some n \<longrightarrow> length (children n) = 8 \<and> 0 \<le> pixel_count n"
    and n: "node_at (bump t c) p = Some n"
  show "length (children n) = 8 \<and> 0 \<le> pixel_count n"
  proof (cases p)
    case Nil
    with n have "n = bump t c" by simp
    moreover from a have "length (children t) = 8 \<and> 0 \<le> pixel_count t"
      by (metis node_at.simps(1))
    ultimately show ?thesis by simp
  next
    case (Cons j p')
    with n have "node_at t (j # p') = Some n"
      using node_at_same_children [of "bump t c" t j p'] by simp
    with a show ?thesis by blast
  qed
qed

lemma wf_tree_set_child:
  assumes "wf_tree t" "wf_tree ch"
  shows "wf_tree (set_child t i ch)"
  unfolding wf_tree_def
proof (intro allI impI)
  fix p n
  assume n: "node_at (set_child t i ch) p = Some n"
  from assms(1) have t8: "length (children t) = 8 \<and> 0 \<le> pixel_count t" by (rule wf_tree_root)
  show "length (children n) = 8 \<and> 0 \<le> pixel_count n"
  proof (cases p)
    case Nil
    with n t8 show ?thesis by auto
  next
    case (Cons j p')
    show ?thesis
    proof (cases "i < length (children t)")
      case True
      with n Cons have "(if j = i then node_at ch p' else node_at t (j # p')) = Some n"
        by (simp only: node_at_set_child_Cons)
      with assms show ?thesis unfolding wf_tree_def by (metis (full_types))
    next
      case False
      then have "children (set_child t i ch) = children t"
        by (simp add: set_child_def list_update_beyond)
      then have "node_at (set_child t i ch) (j # p') = node_at t (j # p')"
        by (rule node_at_same_children)
      with n Cons assms(1) show ?thesis unfolding wf_tree_def by auto
    qed
  qed
qed

lemma fetch_or_create_cases:
  assumes "(case child_at self index of
              None \<Rightarrow> OctreeNode_init M level lv x
            | Some ch \<Rightarrow> Inr (ch, lv)) = Inr (ch, lv1)"
  shows "(child_at self index = Some ch \<and> lv1 = lv) \<or>
         (child_at self index = None \<and> ch = fresh_node \<and>
            (if int level < M - 1
             then (\<exists>ns. lv (int level) = Some ns \<and> lv1 = lv(int level \<mapsto> ns @ [x]))
             else lv1 = lv))"
  using assms by (auto split: option.splits dest: OctreeNode_init_cases)

lemma add_color_wf:
  assumes "add_color M self r lv c level = Inr (self', lv')"
  shows "wf_tree self \<Longrightarrow> wf_tree self'"
  using assms
proof (induction rule: add_color_result_induct)
  case (leaf self r lv level)
  then show ?case by (simp add: wf_tree_bump)
next
  case (step self r lv level ch lv1 ch' lv2)
  from fetch_or_create_cases [OF step(2)] step.prems have "wf_tree ch"
    by (auto intro: wf_tree_child wf_tree_fresh)
  with step have "wf_tree ch'" by simp
  with step.prems show ?case by (rule wf_tree_set_child)
qed

lemma add_color_dom:
  assumes "add_color M self r lv c level = Inr (self', lv')"
  shows "(lv' i = None) = (lv i = None)"
  using assms
proof (induction rule: add_color_result_induct)
  case (leaf self r lv level)
  show ?case by simp
next
  case (step self r lv level ch lv1 ch' lv2)
  from fetch_or_create_cases [OF step(2)] have "(lv1 i = None) = (lv i = None)"
    by (auto split: if_splits)
  with step show ?case by simp
qed

subsection \<open>The tree and the registry after \<^verbatim>\<open>add_color\<close>\<close>

lemma route_leaf: "M \<le> int level \<Longrightarrow> route M c level = []"
  by (simp add: route_def)

lemma route_step:
  "int level < M \<Longrightarrow> route M c level = get_color_index_for_level c level # route M c (level + 1)"
  by (simp add: route_def upt_conv_Cons)

lemma node_at_bump: "node_at (bump t c) p = (if p = [] then Some (bump t c) else node_at t p)"
proof (cases p)
  case Nil
  then show ?thesis by simp
next
  case (Cons j p')
  then show ?thesis using node_at_same_children [of "bump t c" t j p'] by simp
qed

lemma node_at_None_Cons: "child_at t i = None \<Longrightarrow> node_at t (i # p) = None"
  by (simp add: node_at_Cons)

lemma node_at_Some_Cons: "child_at t i = Some ch \<Longrightarrow> node_at t (i # p) = node_at ch p"
  by (simp add: node_at_Cons)

lemma fresh_fields [simp]:
  "palette_index fresh_node = 0" "pixel_count fresh_node = 0"
  "children fresh_node = replicate 8 None"
  by (simp_all add: fresh_node_def)

lemma fetched_node_at:
  assumes "(case child_at self i of
              None \<Rightarrow> OctreeNode_init M level lv x
            | Some ch \<Rightarrow> Inr (ch, lv)) = Inr (ch, lv1)"
  shows "node_at ch p' = (if node_at self (i # p') \<noteq> None then node_at self (i # p')
                          else if p' = [] then Some fresh_node else None)"
proof -
  from fetch_or_create_cases [OF assms] show ?thesis
  proof
    assume a: "child_at self i = Some ch \<and> lv1 = lv"
    then have "node_at self (i # p') = node_at ch p'" by (simp add: node_at_Some_Cons)
    then show ?thesis by (cases p') auto
  next
    assume a: "child_at self i = None \<and> ch = fresh_node \<and>
           (if int level < M - 1
            then \<exists>ns. lv (int level) = Some ns \<and> lv1 = lv(int level \<mapsto> ns @ [x])
            else lv1 = lv)"
    then have "node_at self (i # p') = None" by (simp add: node_at_None_Cons)
    with a show ?thesis by (simp add: node_at_fresh)
  qed
qed

lemma fetched_wf:
  assumes "(case child_at self i of
              None \<Rightarrow> OctreeNode_init M level lv x
            | Some ch \<Rightarrow> Inr (ch, lv)) = Inr (ch, lv1)"
    and "wf_tree self"
  shows "wf_tree ch"
  using fetch_or_create_cases [OF assms(1)] assms(2)
  by (auto intro: wf_tree_child wf_tree_fresh)


lemma add_color_valid:
  assumes "add_color M self r lv c level = Inr (self', lv')"
  shows "wf_tree self \<Longrightarrow>
     (node_at self' p \<noteq> None) = (node_at self p \<noteq> None \<or> prefix p (route M c level))"
  using assms
proof (induction arbitrary: p rule: add_color_result_induct)
  case (leaf self r lv level)
  then show ?case by (auto simp: node_at_bump route_leaf)
next
  case (step self r lv level ch lv1 ch' lv2)
  let ?i = "get_color_index_for_level c level"
  from step.prems have len: "?i < length (children self)"
    using wf_tree_root [of self] index_lt_8 [of c level] by simp
  have rt: "route M c level = ?i # route M c (level + 1)" using step(1) by (rule route_step)
  have wfch: "wf_tree ch" using step(2) step.prems by (rule fetched_wf)
  show ?case
  proof (cases p)
    case Nil
    then show ?thesis by simp
  next
    case (Cons j p')
    show ?thesis
    proof (cases "j = ?i")
      case False
      with Cons len rt show ?thesis by (simp add: node_at_set_child_Cons)
    next
      case True
      have "(node_at ch' p' \<noteq> None) = (node_at ch p' \<noteq> None \<or> prefix p' (route M c (level + 1)))"
        using step.IH [OF wfch] .
      moreover have "(node_at ch p' \<noteq> None \<or> prefix p' (route M c (level + 1)))
          = (node_at self (?i # p') \<noteq> None \<or> prefix p' (route M c (level + 1)))"
        by (simp add: fetched_node_at [OF step(2)])
      ultimately show ?thesis using True Cons len rt by (simp add: node_at_set_child_Cons)
    qed
  qed
qed

lemma add_color_pi_at:
  assumes "add_color M self r lv c level = Inr (self', lv')"
  shows "wf_tree self \<Longrightarrow>
     pi_at self' p = (if node_at self p \<noteq> None then pi_at self p
                      else if prefix p (route M c level) then Some 0 else None)"
  using assms
proof (induction arbitrary: p rule: add_color_result_induct)
  case (leaf self r lv level)
  then show ?case by (auto simp: node_at_bump route_leaf pi_at_def)
next
  case (step self r lv level ch lv1 ch' lv2)
  let ?i = "get_color_index_for_level c level"
  from step.prems have len: "?i < length (children self)"
    using wf_tree_root [of self] index_lt_8 [of c level] by simp
  have rt: "route M c level = ?i # route M c (level + 1)" using step(1) by (rule route_step)
  have wfch: "wf_tree ch" using step(2) step.prems by (rule fetched_wf)
  show ?case
  proof (cases p)
    case Nil
    then show ?thesis by (simp add: pi_at_def)
  next
    case (Cons j p')
    show ?thesis
    proof (cases "j = ?i")
      case False
      with Cons len rt show ?thesis by (simp add: node_at_set_child_Cons pi_at_def)
    next
      case True
      have ih: "pi_at ch' p' = (if node_at ch p' \<noteq> None then pi_at ch p'
                      else if prefix p' (route M c (level + 1)) then Some 0 else None)"
        using step.IH [OF wfch] .
      have l: "pi_at (set_child self ?i ch') p = pi_at ch' p'"
        using True Cons len by (simp add: node_at_set_child_Cons pi_at_def)
      have f: "node_at ch p' = (if node_at self p \<noteq> None then node_at self p
                          else if p' = [] then Some fresh_node else None)"
        using fetched_node_at [OF step(2), of p'] True Cons by simp
      have pre: "prefix p (route M c level) = prefix p' (route M c (level + 1))"
        using True Cons rt by simp
      show ?thesis
        unfolding l ih pre
        by (simp add: f pi_at_def)
    qed
  qed
qed

lemma add_color_pc_at:
  assumes "add_color M self r lv c level = Inr (self', lv')"
  shows "wf_tree self \<Longrightarrow>
     pc_at self' p =
       (if p = route M c level
        then Some ((case pc_at self p of None \<Rightarrow> 0 | Some k \<Rightarrow> k) + 1)
        else if node_at self p \<noteq> None then pc_at self p
        else if prefix p (route M c level) then Some 0 else None)"
  using assms
proof (induction arbitrary: p rule: add_color_result_induct)
  case (leaf self r lv level)
  then show ?case by (auto simp: node_at_bump route_leaf pc_at_def)
next
  case (step self r lv level ch lv1 ch' lv2)
  let ?i = "get_color_index_for_level c level"
  from step.prems have len: "?i < length (children self)"
    using wf_tree_root [of self] index_lt_8 [of c level] by simp
  have rt: "route M c level = ?i # route M c (level + 1)" using step(1) by (rule route_step)
  have wfch: "wf_tree ch" using step(2) step.prems by (rule fetched_wf)
  show ?case
  proof (cases p)
    case Nil
    then show ?thesis using rt by (simp add: pc_at_def)
  next
    case (Cons j p')
    show ?thesis
    proof (cases "j = ?i")
      case False
      with Cons len rt show ?thesis by (simp add: node_at_set_child_Cons pc_at_def)
    next
      case True
      have ih: "pc_at ch' p' =
         (if p' = route M c (level + 1)
          then Some ((case pc_at ch p' of None \<Rightarrow> 0 | Some k \<Rightarrow> k) + 1)
          else if node_at ch p' \<noteq> None then pc_at ch p'
          else if prefix p' (route M c (level + 1)) then Some 0 else None)"
        using step.IH [OF wfch] .
      have l: "pc_at (set_child self ?i ch') p = pc_at ch' p'"
        using True Cons len by (simp add: node_at_set_child_Cons pc_at_def)
      have f: "node_at ch p' = (if node_at self p \<noteq> None then node_at self p
                          else if p' = [] then Some fresh_node else None)"
        using fetched_node_at [OF step(2), of p'] True Cons by simp
      have pre: "prefix p (route M c level) = prefix p' (route M c (level + 1))"
        "(p = route M c level) = (p' = route M c (level + 1))"
        using True Cons rt by simp_all
      have f1: "pc_at ch p' = (if node_at self p \<noteq> None then pc_at self p
                          else if p' = [] then Some 0 else None)"
        unfolding pc_at_def f by simp
      have f2: "(node_at ch p' \<noteq> None) = (node_at self p \<noteq> None \<or> p' = [])"
        unfolding f by simp
      show ?thesis
        unfolding l ih pre f1 f2
        by (auto simp: pc_at_def)
    qed
  qed
qed

lemma add_color_levels:
  assumes "add_color M self r lv c level = Inr (self', lv')"
  shows "wf_tree self \<Longrightarrow>
     lv' i =
       (case lv i of
          None \<Rightarrow> None
        | Some ns \<Rightarrow>
            if int level \<le> i \<and> i < M - 1 \<and>
               node_at self (take (nat (i - int level) + 1) (route M c level)) = None
            then Some (ns @ [r @ take (nat (i - int level) + 1) (route M c level)])
            else Some ns)"
  using assms
proof (induction rule: add_color_result_induct)
  case (leaf self r lv level)
  then show ?case by (auto split: option.splits)
next
  case (step self r lv level ch lv1 ch' lv2)
  let ?i = "get_color_index_for_level c level"
  let ?rt' = "route M c (level + 1)"
  have rt: "route M c level = ?i # ?rt'" using step(1) by (rule route_step)
  have wfch: "wf_tree ch" using step(2) step.prems by (rule fetched_wf)
  have ih: "lv2 i =
       (case lv1 i of
          None \<Rightarrow> None
        | Some ns \<Rightarrow>
            if int (level + 1) \<le> i \<and> i < M - 1 \<and>
               node_at ch (take (nat (i - int (level + 1)) + 1) ?rt') = None
            then Some (ns @ [(r @ [?i]) @ take (nat (i - int (level + 1)) + 1) ?rt'])
            else Some ns)"
    using step.IH [OF wfch] .
  note foc = fetch_or_create_cases [OF step(2)]
  consider (lt) "i < int level" | (eq) "i = int level" | (gt) "int level < i" by linarith
  then show ?case
  proof cases
    case lt
    with foc have "lv1 i = lv i" by (auto split: if_splits)
    with lt ih show ?thesis by (auto split: option.splits)
  next
    case eq
    with ih have l2: "lv2 i = lv1 i" by (auto split: option.splits)
    have t1: "take (nat (i - int level) + 1) (route M c level) = [?i]"
      using eq rt by simp
    have n1: "node_at self [?i] = child_at self ?i"
      by (simp add: node_at_Cons split: option.splits)
    from foc show ?thesis
    proof
      assume "child_at self ?i = Some ch \<and> lv1 = lv"
      then show ?thesis unfolding l2 t1 n1 by (auto split: option.splits)
    next
      assume "child_at self ?i = None \<and> ch = fresh_node \<and>
           (if int level < M - 1
            then \<exists>ns. lv (int level) = Some ns \<and> lv1 = lv(int level \<mapsto> ns @ [r @ [?i]])
            else lv1 = lv)"
      then show ?thesis unfolding l2 t1 n1 using eq by (auto split: option.splits if_splits)
    qed
  next
    case gt
    with foc have l1: "lv1 i = lv i" by (auto split: if_splits)
    define k where "k = nat (i - int (level + 1)) + 1"
    have k: "nat (i - int level) + 1 = Suc k" using gt by (simp add: k_def)
    have tk: "take (nat (i - int level) + 1) (route M c level) = ?i # take k ?rt'"
      unfolding k rt by simp
    show ?thesis
    proof (cases "i < M - 1")
      case False
      with ih l1 show ?thesis by (auto split: option.splits)
    next
      case True
      with gt have "int (level + 1) < M" by simp
      then have "?rt' \<noteq> []" by (simp add: route_def)
      then have ne: "take k ?rt' \<noteq> []" by (simp add: k_def)
      have "node_at ch (take k ?rt') = node_at self (?i # take k ?rt')"
        using fetched_node_at [OF step(2), of "take k ?rt'"] ne by auto
      with ih l1 tk gt True show ?thesis
        by (auto simp: k_def split: option.splits)
    qed
  qed
qed

lemma add_color_succeeds:
  assumes "\<forall>l. level \<le> l \<and> int l < M - 1 \<longrightarrow> lv (int l) \<noteq> None"
  shows "\<exists>self' lv'. add_color M self r lv c level = Inr (self', lv')"
  using assms
proof (induction "nat (M - int level)" arbitrary: self r lv level)
  case 0
  then have "M \<le> int level" by simp
  then show ?case by (simp add: add_color_leaf)
next
  case (Suc k)
  let ?i = "get_color_index_for_level c level"
  from Suc.hyps(2) have lt: "\<not> M \<le> int level" by simp
  have "\<exists>ch lv1. (case child_at self ?i of
           None \<Rightarrow> OctreeNode_init M level lv (r @ [?i])
         | Some ch \<Rightarrow> Inr (ch, lv)) = Inr (ch, lv1)"
    using Suc.prems [rule_format, of level]
    by (auto simp: OctreeNode_init_def add_level_node_def Let_def split: option.splits)
  then obtain ch lv1 where f: "(case child_at self ?i of
           None \<Rightarrow> OctreeNode_init M level lv (r @ [?i])
         | Some ch \<Rightarrow> Inr (ch, lv)) = Inr (ch, lv1)" by blast
  have "(lv1 j = None) = (lv j = None)" for j
    using fetch_or_create_cases [OF f] by (auto split: if_splits)
  with Suc.prems have keys: "\<forall>l. level + 1 \<le> l \<and> int l < M - 1 \<longrightarrow> lv1 (int l) \<noteq> None"
    by simp
  from Suc.hyps(2) have "k = nat (M - int (level + 1))" by simp
  from Suc.hyps(1) [OF this keys]
  obtain ch' lv2 where "add_color M ch (r @ [?i]) lv1 c (level + 1) = Inr (ch', lv2)" by blast
  with f lt show ?case
    by (subst add_color.simps) (simp add: Let_def)
qed

subsection \<open>Writing through a reference\<close>

lemma flat_set_child: "flat g \<Longrightarrow> g (set_child t i ch) = g t"
  by (cases t) (simp add: flat_def set_child_def)

lemma flat_fields [simp]: "flat pixel_count" "flat palette_index" "flat color" "flat (\<lambda>_. ())"
  by (simp_all add: flat_def)

lemma node_at_update_at_same: "node_at (update_at r f t) r = map_option f (node_at t r)"
proof (induction r arbitrary: t)
  case Nil
  show ?case by simp
next
  case (Cons i r)
  show ?case
  proof (cases "child_at t i")
    case None
    then show ?thesis by (simp add: node_at_Cons)
  next
    case (Some ch)
    then have "i < length (children t)" by (rule child_at_lt)
    with Some Cons show ?thesis
      by (simp add: node_at_set_child_Cons node_at_Some_Cons)
  qed
qed

lemma node_at_update_at_other:
  assumes "flat g" "\<forall>n. children (f n) = children n" "p \<noteq> r"
  shows "map_option g (node_at (update_at r f t) p) = map_option g (node_at t p)"
  using assms(3)
proof (induction r arbitrary: t p)
  case Nil
  then obtain j p' where p: "p = j # p'" by (cases p) auto
  from assms(2) have "children (f t) = children t" by simp
  then have "node_at (f t) (j # p') = node_at t (j # p')" by (rule node_at_same_children)
  with p show ?case by simp
next
  case (Cons i r)
  show ?case
  proof (cases "child_at t i")
    case None
    then show ?thesis by simp
  next
    case (Some ch)
    then have len: "i < length (children t)" by (rule child_at_lt)
    show ?thesis
    proof (cases p)
      case Nil
      with Some assms(1) show ?thesis by (simp add: flat_set_child)
    next
      case (Cons j p')
      show ?thesis
      proof (cases "j = i")
        case False
        with Some Cons len show ?thesis by (simp add: node_at_set_child_Cons)
      next
        case True
        with Cons Cons.prems have "p' \<noteq> r" by simp
        then have "map_option g (node_at (update_at r f ch) p') = map_option g (node_at ch p')"
          by (rule Cons.IH)
        with True Cons Some len show ?thesis
          by (simp add: node_at_set_child_Cons node_at_Some_Cons)
      qed
    qed
  qed
qed

lemma fld_update_at:
  assumes "flat g" "\<forall>n. children (f n) = children n"
  shows "map_option g (node_at (update_at r f t) p) =
           (if p = r then map_option (g \<circ> f) (node_at t p) else map_option g (node_at t p))"
  using node_at_update_at_other [OF assms] node_at_update_at_same [of r f t]
  by (simp add: option.map_comp)

lemma valid_update_at:
  assumes "\<forall>n. children (f n) = children n"
  shows "(node_at (update_at r f t) p = None) = (node_at t p = None)"
  using fld_update_at [of "\<lambda>_. ()" f r t p] assms by (auto split: if_splits)

lemma pc_update_at:
  assumes "\<forall>n. children (f n) = children n"
  shows "pc_at (update_at r f t) p =
           (if p = r then map_option (pixel_count \<circ> f) (node_at t p) else pc_at t p)"
  unfolding pc_at_def using fld_update_at [of pixel_count f r t p] assms by simp

lemma pi_update_at:
  assumes "\<forall>n. children (f n) = children n"
  shows "pi_at (update_at r f t) p =
           (if p = r then map_option (palette_index \<circ> f) (node_at t p) else pi_at t p)"
  unfolding pi_at_def using fld_update_at [of palette_index f r t p] assms by simp

lemma wf_tree_iff:
  "wf_tree t = (\<forall>p. (case node_at t p of None \<Rightarrow> True | Some n \<Rightarrow> length (children n) = 8) \<and>
                     (case pc_at t p of None \<Rightarrow> True | Some k \<Rightarrow> 0 \<le> k))"
  unfolding wf_tree_def pc_at_def by (auto split: option.splits)

lemma len_update_at:
  assumes "\<forall>n. children (f n) = children n"
  shows "map_option (\<lambda>n. length (children n)) (node_at (update_at r f t) p) =
         map_option (\<lambda>n. length (children n)) (node_at t p)"
proof (induction r arbitrary: t p)
  case Nil
  show ?case
  proof (cases p)
    case Nil
    then show ?thesis using assms by simp
  next
    case (Cons j p')
    from assms have "children (f t) = children t" by simp
    then have "node_at (f t) (j # p') = node_at t (j # p')" by (rule node_at_same_children)
    with Cons show ?thesis by simp
  qed
next
  case (Cons i r)
  show ?case
  proof (cases "child_at t i")
    case None
    then show ?thesis by simp
  next
    case (Some ch)
    then have len: "i < length (children t)" by (rule child_at_lt)
    show ?thesis
    proof (cases p)
      case Nil
      with Some show ?thesis by simp
    next
      case (Cons j p')
      show ?thesis
      proof (cases "j = i")
        case False
        with Some Cons len show ?thesis by (simp add: node_at_set_child_Cons)
      next
        case True
        with Cons Some len Cons.IH [of ch p'] show ?thesis
          by (simp add: node_at_set_child_Cons node_at_Some_Cons)
      qed
    qed
  qed
qed

lemma wf_tree_update_at:
  assumes wf: "wf_tree t" and ch: "\<forall>n. children (f n) = children n"
    and pc: "\<forall>n. node_at t r = Some n \<longrightarrow> 0 \<le> pixel_count (f n)"
  shows "wf_tree (update_at r f t)"
  unfolding wf_tree_def
proof (intro allI impI)
  fix p n'
  assume n': "node_at (update_at r f t) p = Some n'"
  from len_update_at [OF ch, of r t p] n' obtain n where
    n: "node_at t p = Some n" and l: "length (children n') = length (children n)"
    by (cases "node_at t p") auto
  from wf n have w: "length (children n) = 8 \<and> 0 \<le> pixel_count n"
    unfolding wf_tree_def by blast
  have "0 \<le> pixel_count n'"
  proof (cases "p = r")
    case True
    with n' n node_at_update_at_same [of r f t] have "n' = f n" by simp
    with pc n True show ?thesis by simp
  next
    case False
    with pc_update_at [OF ch, of r t p] n' n have "pixel_count n' = pixel_count n"
      by (simp add: pc_at_def)
    with w show ?thesis by simp
  qed
  with l w show "length (children n') = 8 \<and> 0 \<le> pixel_count n'" by simp
qed

subsection \<open>The leaves \<^verbatim>\<open>get_leaf_nodes\<close> lists\<close>

lemma leaf_at_Nil [simp]: "leaf_at t [] = is_leaf t"
  by (simp add: leaf_at_def)

lemma leaf_at_Cons:
  "leaf_at t (i # p) = (case child_at t i of None \<Rightarrow> False | Some ch \<Rightarrow> leaf_at ch p)"
  by (simp add: leaf_at_def node_at_Cons split: option.splits)

lemma first_leaf_Nil [simp]: "\<not> first_leaf t []"
  by (simp add: first_leaf_def)

lemma first_leaf_Cons:
  "first_leaf t (i # p) =
     (case child_at t i of
        None \<Rightarrow> False
      | Some ch \<Rightarrow> if is_leaf ch then p = [] else first_leaf ch p)"
proof (cases "child_at t i")
  case None
  then show ?thesis by (simp add: first_leaf_def leaf_at_Cons)
next
  case (Some ch)
  have pre: "(\<forall>q. q \<noteq> [] \<and> strict_prefix q (i # p) \<longrightarrow> \<not> leaf_at t q)
       = (\<forall>q'. strict_prefix q' p \<longrightarrow> \<not> leaf_at ch q')"
  proof
    assume a: "\<forall>q. q \<noteq> [] \<and> strict_prefix q (i # p) \<longrightarrow> \<not> leaf_at t q"
    show "\<forall>q'. strict_prefix q' p \<longrightarrow> \<not> leaf_at ch q'"
    proof (intro allI impI)
      fix q' assume "strict_prefix q' p"
      then have "i # q' \<noteq> [] \<and> strict_prefix (i # q') (i # p)" by simp
      with a have "\<not> leaf_at t (i # q')" by blast
      with Some show "\<not> leaf_at ch q'" by (simp add: leaf_at_Cons)
    qed
  next
    assume a: "\<forall>q'. strict_prefix q' p \<longrightarrow> \<not> leaf_at ch q'"
    show "\<forall>q. q \<noteq> [] \<and> strict_prefix q (i # p) \<longrightarrow> \<not> leaf_at t q"
    proof (intro allI impI)
      fix q assume q: "q \<noteq> [] \<and> strict_prefix q (i # p)"
      then obtain q' where "q = i # q'" "strict_prefix q' p"
        by (cases q) auto
      with a Some show "\<not> leaf_at t q" by (simp add: leaf_at_Cons)
    qed
  qed
  show ?thesis
  proof (cases "p = []")
    case True
    have "strict_prefix q [i] \<Longrightarrow> q = []" for q
      by (cases q) auto
    with True Some show ?thesis by (auto simp: first_leaf_def leaf_at_Cons)
  next
    case False
    then have "strict_prefix [] p" by (cases p) auto
    show ?thesis
    proof (cases "is_leaf ch")
      case True
      with \<open>strict_prefix [] p\<close> have "\<not> (\<forall>q'. strict_prefix q' p \<longrightarrow> \<not> leaf_at ch q')"
        by (metis leaf_at_Nil)
      with Some True False pre show ?thesis by (simp add: first_leaf_def)
    next
      case nl: False
      have "(\<forall>q'. strict_prefix q' p \<longrightarrow> \<not> leaf_at ch q')
          = (\<forall>q'. q' \<noteq> [] \<and> strict_prefix q' p \<longrightarrow> \<not> leaf_at ch q')"
        using nl by (metis leaf_at_Nil)
      with Some nl False pre show ?thesis by (simp add: first_leaf_def leaf_at_Cons)
    qed
  qed
qed


lemma slot_leaf_Nil [simp]: "\<not> slot_leaf [] j p"
  by (simp add: slot_leaf_def)

lemma slot_leaf_Cons:
  "slot_leaf (c # cs) j p =
     (case j of 0 \<Rightarrow> (case c of None \<Rightarrow> False | Some ch \<Rightarrow> if is_leaf ch then p = [] else first_leaf ch p)
      | Suc j' \<Rightarrow> slot_leaf cs j' p)"
  by (cases j) (simp_all add: slot_leaf_def)

lemma first_leaf_slot: "first_leaf t (i # p) = slot_leaf (children t) i p"
  by (simp add: first_leaf_Cons slot_leaf_def child_at_def)

lemma leaf_nodes_sets:
  "set (get_leaf_nodes t r) = {r @ p | p. first_leaf t p}"
  "set (leaf_nodes_from cs r k) = {r @ (k + j) # p | j p. slot_leaf cs j p}"
proof (induction t r and cs r k rule: get_leaf_nodes_leaf_nodes_from.induct)
  case (1 c pc pi cs r)
  have "{r @ p | p. first_leaf (OctreeNode c pc pi cs) p}
      = {r @ (0 + j) # p | j p. slot_leaf cs j p}"
  proof (intro set_eqI iffI)
    fix x assume "x \<in> {r @ p | p. first_leaf (OctreeNode c pc pi cs) p}"
    then obtain p where x: "x = r @ p" and f: "first_leaf (OctreeNode c pc pi cs) p" by blast
    then obtain j p' where "p = j # p'" by (cases p) auto
    with x f show "x \<in> {r @ (0 + j) # p | j p. slot_leaf cs j p}"
      by (auto simp: first_leaf_slot)
  next
    fix x assume "x \<in> {r @ (0 + j) # p | j p. slot_leaf cs j p}"
    then obtain j p where "x = r @ j # p" "slot_leaf cs j p" by auto
    then have "x = r @ (j # p) \<and> first_leaf (OctreeNode c pc pi cs) (j # p)"
      by (simp add: first_leaf_slot)
    then show "x \<in> {r @ p | p. first_leaf (OctreeNode c pc pi cs) p}" by blast
  qed
  with 1 show ?case by simp
next
  case (2 r i)
  show ?case by simp
next
  case (3 cs r i)
  have "{r @ (i + j) # p | j p. slot_leaf (None # cs) j p}
      = {r @ (Suc i + j) # p | j p. slot_leaf cs j p}"
  proof (intro set_eqI iffI)
    fix x assume "x \<in> {r @ (i + j) # p | j p. slot_leaf (None # cs) j p}"
    then obtain j p where x: "x = r @ (i + j) # p" and s: "slot_leaf (None # cs) j p" by blast
    then obtain j' where "j = Suc j'" "slot_leaf cs j' p"
      by (cases j) (auto simp: slot_leaf_Cons)
    with x show "x \<in> {r @ (Suc i + j) # p | j p. slot_leaf cs j p}" by auto
  next
    fix x assume "x \<in> {r @ (Suc i + j) # p | j p. slot_leaf cs j p}"
    then obtain j p where "x = r @ (Suc i + j) # p" "slot_leaf cs j p" by blast
    then have "x = r @ (i + Suc j) # p \<and> slot_leaf (None # cs) (Suc j) p"
      by (simp add: slot_leaf_Cons)
    then show "x \<in> {r @ (i + j) # p | j p. slot_leaf (None # cs) j p}" by blast
  qed
  with 3 show ?case by simp
next
  case (4 node cs r i)
  let ?here = "if is_leaf node then [r @ [i]] else get_leaf_nodes node (r @ [i])"
  have here: "set ?here = {r @ i # p | p. if is_leaf node then p = [] else first_leaf node p}"
    using "4.IH"(1) by auto
  have "{r @ (i + j) # p | j p. slot_leaf (Some node # cs) j p}
      = {r @ i # p | p. if is_leaf node then p = [] else first_leaf node p}
        \<union> {r @ (Suc i + j) # p | j p. slot_leaf cs j p}" (is "?A = ?B \<union> ?C")
  proof (intro set_eqI iffI)
    fix x assume "x \<in> ?A"
    then obtain j p where x: "x = r @ (i + j) # p" and s: "slot_leaf (Some node # cs) j p" by blast
    show "x \<in> ?B \<union> ?C"
    proof (cases j)
      case 0
      with x s have "x \<in> ?B" by (simp add: slot_leaf_Cons)
      then show ?thesis by simp
    next
      case (Suc j')
      with x s have "x = r @ (Suc i + j') # p \<and> slot_leaf cs j' p" by (simp add: slot_leaf_Cons)
      then have "x \<in> ?C" by blast
      then show ?thesis by simp
    qed
  next
    fix x assume "x \<in> ?B \<union> ?C"
    then show "x \<in> ?A"
    proof
      assume "x \<in> ?B"
      then obtain p where "x = r @ i # p" "if is_leaf node then p = [] else first_leaf node p"
        by blast
      then have "x = r @ (i + 0) # p \<and> slot_leaf (Some node # cs) 0 p"
        by (simp add: slot_leaf_Cons)
      then show ?thesis by blast
    next
      assume "x \<in> ?C"
      then obtain j p where "x = r @ (Suc i + j) # p" "slot_leaf cs j p" by blast
      then have "x = r @ (i + Suc j) # p \<and> slot_leaf (Some node # cs) (Suc j) p"
        by (simp add: slot_leaf_Cons)
      then show ?thesis by blast
    qed
  qed
  moreover have "set (leaf_nodes_from (Some node # cs) r i) = set ?here \<union> set (leaf_nodes_from cs r (Suc i))"
    by simp
  ultimately show ?case using here "4.IH"(2) by simp
qed

lemma leaf_nodes_distinct:
  "distinct (get_leaf_nodes t r)"
  "distinct (leaf_nodes_from cs r k)"
proof (induction t r and cs r k rule: get_leaf_nodes_leaf_nodes_from.induct)
  case (1 c pc pi cs r)
  then show ?case by simp
next
  case (2 r i)
  show ?case by simp
next
  case (3 cs r i)
  then show ?case by simp
next
  case (4 node cs r i)
  let ?here = "if is_leaf node then [r @ [i]] else get_leaf_nodes node (r @ [i])"
  have d1: "distinct ?here" using "4.IH"(1) by simp
  have "set ?here \<subseteq> {r @ i # p | p. True}"
    using leaf_nodes_sets(1) [of node "r @ [i]"] by auto
  moreover have "set (leaf_nodes_from cs r (Suc i)) \<subseteq> {r @ (Suc i + j) # p | j p. True}"
    using leaf_nodes_sets(2) [of cs r "Suc i"] by auto
  ultimately have "set ?here \<inter> set (leaf_nodes_from cs r (Suc i)) = {}"
    by fastforce
  with d1 "4.IH"(2) show ?case by simp
qed

lemma get_leaf_nodes_children: "get_leaf_nodes t r = leaf_nodes_from (children t) r 0"
  by (cases t) simp

lemma leaf_nodes_from_update:
  assumes "is_leaf ch' = is_leaf ch" "\<forall>r. get_leaf_nodes ch' r = get_leaf_nodes ch r"
  shows "i < length cs \<Longrightarrow> cs ! i = Some ch \<Longrightarrow>
         leaf_nodes_from (cs[i := Some ch']) r k = leaf_nodes_from cs r k"
proof (induction cs arbitrary: i k)
  case Nil
  then show ?case by simp
next
  case (Cons c cs)
  show ?case
  proof (cases i)
    case 0
    with Cons.prems assms show ?thesis by simp
  next
    case (Suc i')
    with Cons.prems have "leaf_nodes_from (cs[i' := Some ch']) r (Suc k) = leaf_nodes_from cs r (Suc k)"
      by (intro Cons.IH) simp_all
    with Suc show ?thesis by (cases c) simp_all
  qed
qed

lemma pixel_count_update_at:
  assumes "\<forall>n. children (f n) = children n \<and> pixel_count (f n) = pixel_count n"
  shows "pixel_count (update_at r f t) = pixel_count t"
proof -
  from assms have "\<forall>n. children (f n) = children n" by simp
  from pc_update_at [OF this, of r t "[]"] assms show ?thesis
    by (simp add: pc_at_def split: if_splits)
qed

lemma get_leaf_nodes_update_at:
  assumes "\<forall>n. children (f n) = children n \<and> pixel_count (f n) = pixel_count n"
  shows "get_leaf_nodes (update_at r f t) r0 = get_leaf_nodes t r0"
proof (induction r arbitrary: t r0)
  case Nil
  from assms have "children (f t) = children t" by simp
  then show ?case by (simp add: get_leaf_nodes_children)
next
  case (Cons i r)
  show ?case
  proof (cases "child_at t i")
    case None
    then show ?thesis by simp
  next
    case (Some ch)
    then have len: "i < length (children t)" and nth: "children t ! i = Some ch"
      by (auto simp: child_at_def split: if_splits)
    have "is_leaf (update_at r f ch) = is_leaf ch"
      by (simp add: is_leaf_def pixel_count_update_at [OF assms])
    moreover have "\<forall>r0. get_leaf_nodes (update_at r f ch) r0 = get_leaf_nodes ch r0"
      using Cons.IH by simp
    ultimately have "leaf_nodes_from ((children t)[i := Some (update_at r f ch)]) r0 0
        = leaf_nodes_from (children t) r0 0"
      using len nth by (rule leaf_nodes_from_update)
    with Some show ?thesis
      by (simp add: get_leaf_nodes_children set_child_def)
  qed
qed

lemma flat_average [simp]: "flat average"
  by (simp add: flat_def average_def)

lemma get_color_leaf: "is_leaf n \<Longrightarrow> get_color n = Inr (average n)"
  by (simp add: get_color_def is_leaf_def average_def)

subsection \<open>The palette loop\<close>

lemma set_palette_index_fields [simp]:
  "children (set_palette_index k n) = children n"
  "pixel_count (set_palette_index k n) = pixel_count n"
  "color (set_palette_index k n) = color n"
  "palette_index (set_palette_index k n) = k"
  "average (set_palette_index k n) = average n"
  by (simp_all add: set_palette_index_def average_def)

lemma number_leaves_frame:
  assumes "flat g" "\<forall>n k. g (set_palette_index k n) = g n"
  shows "map_option g (node_at (number_leaves rs k t) p) = map_option g (node_at t p)"
proof (induction rs arbitrary: k t)
  case Nil
  show ?case by simp
next
  case (Cons r rs)
  have "map_option g (node_at (update_at r (set_palette_index k) t) p) = map_option g (node_at t p)"
    using fld_update_at [OF assms(1), of "set_palette_index k" r t p] assms(2)
    by (simp add: option.map_comp comp_def)
  with Cons show ?case by simp
qed

lemma number_leaves_pc: "pc_at (number_leaves rs k t) p = pc_at t p"
  unfolding pc_at_def by (rule number_leaves_frame) simp_all

lemma number_leaves_avg: "avg_at (number_leaves rs k t) p = avg_at t p"
  unfolding avg_at_def by (rule number_leaves_frame) simp_all

lemma number_leaves_valid: "(node_at (number_leaves rs k t) p = None) = (node_at t p = None)"
  using number_leaves_pc [of rs k t p] unfolding pc_at_def
  by (metis option.map_disc_iff)

lemma number_leaves_leaves: "get_leaf_nodes (number_leaves rs k t) r0 = get_leaf_nodes t r0"
  by (induction rs arbitrary: k t) (simp_all add: get_leaf_nodes_update_at)

lemma number_leaves_pi_other:
  "p \<notin> set rs \<Longrightarrow> pi_at (number_leaves rs k t) p = pi_at t p"
proof (induction rs arbitrary: k t)
  case Nil
  show ?case by simp
next
  case (Cons r rs)
  then have "pi_at (update_at r (set_palette_index k) t) p = pi_at t p"
    by (simp add: pi_update_at)
  with Cons show ?case by simp
qed

lemma number_leaves_pi_nth:
  "distinct rs \<Longrightarrow> j < length rs \<Longrightarrow> node_at t (rs ! j) \<noteq> None \<Longrightarrow>
     pi_at (number_leaves rs k t) (rs ! j) = Some (k + int j)"
proof (induction rs arbitrary: k t j)
  case Nil
  then show ?case by simp
next
  case (Cons r rs)
  show ?case
  proof (cases j)
    case 0
    with Cons.prems have "r \<notin> set rs" by simp
    then have "pi_at (number_leaves rs (k + 1) (update_at r (set_palette_index k) t)) r
        = pi_at (update_at r (set_palette_index k) t) r"
      by (rule number_leaves_pi_other)
    with 0 Cons.prems show ?thesis by (auto simp: pi_update_at)
  next
    case (Suc j')
    with Cons.prems have "distinct rs" "j' < length rs" by simp_all
    moreover from Suc Cons.prems have "node_at (update_at r (set_palette_index k) t) (rs ! j') \<noteq> None"
      by (simp add: valid_update_at)
    ultimately have "pi_at (number_leaves rs (k + 1) (update_at r (set_palette_index k) t)) (rs ! j')
        = Some (k + 1 + int j')"
      by (rule Cons.IH)
    with Suc show ?thesis by simp
  qed
qed

lemma build_palette_run:
  assumes "\<forall>r\<in>set ls. leaf_at t r" "distinct ls"
  shows "\<exists>pal'. build_palette ls t pal k cc = Inr (number_leaves (take (nat (cc - k)) ls) k t, pal')
           \<and> map Some pal' = map Some pal @ map (avg_at t) (take (nat (cc - k)) ls)"
  using assms
proof (induction ls arbitrary: t pal k)
  case Nil
  show ?case by simp
next
  case (Cons r ls)
  show ?case
  proof (cases "cc \<le> k")
    case True
    then show ?thesis by simp
  next
    case False
    then obtain m where m: "nat (cc - k) = Suc m" "nat (cc - (k + 1)) = m"
      by (cases "nat (cc - k)") auto
    from Cons.prems obtain n where n: "node_at t r = Some n" "is_leaf n"
      by (auto simp: leaf_at_def split: option.splits)
    let ?t1 = "update_at r (set_palette_index k) t"
    have "\<forall>x\<in>set ls. leaf_at ?t1 x"
    proof
      fix x assume x: "x \<in> set ls"
      with Cons.prems have "x \<noteq> r" "leaf_at t x" by auto
      moreover from \<open>x \<noteq> r\<close> have "pc_at ?t1 x = pc_at t x" by (simp add: pc_update_at)
      ultimately show "leaf_at ?t1 x"
        by (auto simp: leaf_at_def pc_at_def is_leaf_def split: option.splits)
    qed
    moreover from Cons.prems have "distinct ls" by simp
    ultimately obtain pal' where
      run: "build_palette ls ?t1 (pal @ [average n]) (k + 1) cc
              = Inr (number_leaves (take (nat (cc - (k + 1))) ls) (k + 1) ?t1, pal')"
      and pal: "map Some pal' = map Some (pal @ [average n]) @ map (avg_at ?t1) (take (nat (cc - (k + 1))) ls)"
      using Cons.IH [of ?t1 "pal @ [average n]" "k + 1"] by blast
    have "avg_at ?t1 x = avg_at t x" if "x \<in> set ls" for x
    proof -
      from that Cons.prems have "x \<noteq> r" by auto
      then show ?thesis
        unfolding avg_at_def
        using fld_update_at [of average "set_palette_index k" r t x] by simp
    qed
    then have "map (avg_at ?t1) (take m ls) = map (avg_at t) (take m ls)"
      by (auto dest: in_set_takeD)
    with pal m n have "map Some pal' = map Some pal @ map (avg_at t) (take (nat (cc - k)) (r # ls))"
      by (simp add: avg_at_def)
    moreover from run False n m
    have "build_palette (r # ls) t pal k cc = Inr (number_leaves (take (nat (cc - k)) (r # ls)) k t, pal')"
      by (simp add: get_color_leaf)
    ultimately show ?thesis by blast
  qed
qed

subsection \<open>Reduction\<close>

lemma fold_children_sums:
  "fold_children cs col pc result =
     (col\<lparr>red := red col + sum_list (map (red \<circ> color) (existing cs)),
          green := green col + sum_list (map (green \<circ> color) (existing cs)),
          blue := blue col + sum_list (map (blue \<circ> color) (existing cs))\<rparr>,
      pc + sum_list (map pixel_count (existing cs)),
      result + int (length (existing cs)))"
  by (induction cs col pc result rule: fold_children.induct) (simp_all add: algebra_simps)

lemma remove_leaves_value:
  "remove_leaves self =
     (OctreeNode
        ((color self)\<lparr>red := red (color self) + sum_list (map (red \<circ> color) (existing (children self))),
          green := green (color self) + sum_list (map (green \<circ> color) (existing (children self))),
          blue := blue (color self) + sum_list (map (blue \<circ> color) (existing (children self)))\<rparr>)
        (pixel_count self + sum_list (map pixel_count (existing (children self))))
        (palette_index self) (children self),
      int (length (existing (children self))) - 1)"
  by (simp add: remove_leaves_def fold_children_sums)

lemma remove_leaves_fields [simp]:
  "children (fst (remove_leaves n)) = children n"
  "palette_index (fst (remove_leaves n)) = palette_index n"
  "pixel_count (fst (remove_leaves n)) = pixel_count n + sum_list (map pixel_count (existing (children n)))"
  by (simp_all add: remove_leaves_value)

lemma existing_mem: "ch \<in> set (existing cs) \<Longrightarrow> \<exists>j<length cs. cs ! j = Some ch"
proof (induction cs rule: existing.induct)
  case 1
  then show ?case by simp
next
  case (2 cs)
  then obtain j where "j < length cs" "cs ! j = Some ch" by auto
  then have "Suc j < length (None # cs) \<and> (None # cs) ! Suc j = Some ch" by simp
  then show ?case by blast
next
  case (3 node cs)
  show ?case
  proof (cases "ch = node")
    case True
    then have "0 < length (Some node # cs) \<and> (Some node # cs) ! 0 = Some ch" by simp
    then show ?thesis by blast
  next
    case False
    with 3 obtain j where "j < length cs" "cs ! j = Some ch" by auto
    then have "Suc j < length (Some node # cs) \<and> (Some node # cs) ! Suc j = Some ch" by simp
    then show ?thesis by blast
  qed
qed

lemma existing_child_at: "ch \<in> set (existing (children n)) \<Longrightarrow> \<exists>j. child_at n j = Some ch"
  by (auto simp: child_at_def dest!: existing_mem)

lemma node_at_append:
  "node_at t (r @ p) = (case node_at t r of None \<Rightarrow> None | Some n \<Rightarrow> node_at n p)"
  by (induction r arbitrary: t) (simp_all add: node_at_Cons split: option.splits)

lemma wf_tree_sub: "wf_tree t \<Longrightarrow> node_at t r = Some n \<Longrightarrow> wf_tree n"
  unfolding wf_tree_def by (metis node_at_append option.simps(5))

lemma children_pc_nonneg:
  assumes "wf_tree n"
  shows "0 \<le> sum_list (map pixel_count (existing (children n)))"
proof (rule sum_list_nonneg)
  fix x assume "x \<in> set (map pixel_count (existing (children n)))"
  then obtain ch where "ch \<in> set (existing (children n))" "x = pixel_count ch" by auto
  then obtain j where "child_at n j = Some ch" by (auto dest: existing_child_at)
  with assms have "wf_tree ch" by (rule wf_tree_child)
  with \<open>x = pixel_count ch\<close> show "0 \<le> x" by (simp add: wf_tree_root)
qed


lemma grows_refl: "grows t t"
  by (simp add: grows_def)

lemma grows_trans: "grows t t1 \<Longrightarrow> grows t1 t2 \<Longrightarrow> grows t t2"
  unfolding grows_def by (metis order_trans)

lemma remove_leaves_at_run:
  assumes wf: "wf_tree t" and n: "node_at t r = Some n"
  shows "remove_leaves_at r t =
           Inr (update_at r (\<lambda>_. fst (remove_leaves n)) t, int (length (existing (children n))) - 1)"
    and "wf_tree (update_at r (\<lambda>_. fst (remove_leaves n)) t)"
    and "grows t (update_at r (\<lambda>_. fst (remove_leaves n)) t)"
    and "pc_at (update_at r (\<lambda>_. fst (remove_leaves n)) t) p =
           (if p = r then Some (pixel_count n + sum_list (map pixel_count (existing (children n))))
            else pc_at t p)"
proof -
  let ?f = "\<lambda>_::OctreeNode. fst (remove_leaves n)"
  let ?t' = "update_at r ?f t"
  show "remove_leaves_at r t = Inr (?t', int (length (existing (children n))) - 1)"
    using n by (simp add: remove_leaves_at_def remove_leaves_value)
  have same: "update_at r ?f t = update_at r (\<lambda>m. OctreeNode (color (fst (remove_leaves n)))
        (pixel_count (fst (remove_leaves n))) (palette_index m) (children m)) t"
    (is "_ = update_at r ?g t")
    using n
  proof (induction r arbitrary: t)
    case Nil
    then show ?case by (simp add: remove_leaves_value)
  next
    case (Cons i r)
    then show ?case by (cases "child_at t i") (simp_all add: node_at_Cons)
  qed
  have ch: "\<forall>m. children (?g m) = children m" by simp
  from wf n have wfn: "wf_tree n" by (rule wf_tree_sub)
  then have nn: "0 \<le> pixel_count n + sum_list (map pixel_count (existing (children n)))"
    using children_pc_nonneg [of n] wf_tree_root [of n] by simp
  show "wf_tree ?t'"
    unfolding same using wf ch by (rule wf_tree_update_at) (simp add: nn)
  show pc: "pc_at ?t' p =
           (if p = r then Some (pixel_count n + sum_list (map pixel_count (existing (children n))))
            else pc_at t p)" for p
    unfolding same using pc_update_at [OF ch, of r t p] n by simp
  have pi: "pi_at ?t' p = pi_at t p" for p
    unfolding same using pi_update_at [OF ch, of r t p] n by (simp add: pi_at_def)
  have v: "(node_at ?t' p = None) = (node_at t p = None)" for p
    unfolding same using ch by (rule valid_update_at)
  have "\<exists>k'. pc_at ?t' p = Some k' \<and> k \<le> k'" if "pc_at t p = Some k" for p k
  proof (cases "p = r")
    case True
    with that n have "k = pixel_count n" by (simp add: pc_at_def)
    with True pc [of p] children_pc_nonneg [OF wfn] show ?thesis by simp
  next
    case False
    with pc [of p] that show ?thesis by simp
  qed
  with pi v show "grows t ?t'" unfolding grows_def by blast
qed

lemma grows_valid: "grows t t' \<Longrightarrow> node_at t r \<noteq> None \<Longrightarrow> node_at t' r \<noteq> None"
  by (simp add: grows_def)

lemma reduce_nodes_run:
  assumes "wf_tree t" "\<forall>r\<in>set ns. node_at t r \<noteq> None"
  shows "\<exists>t' lc'. reduce_nodes ns t lc cc = Inr (t', lc') \<and> wf_tree t' \<and> grows t t' \<and>
           (\<forall>p. p \<notin> set ns \<longrightarrow> pc_at t' p = pc_at t p)"
  using assms
proof (induction ns arbitrary: t lc)
  case Nil
  then show ?case by (simp add: grows_refl)
next
  case (Cons r ns)
  from Cons.prems obtain n where n: "node_at t r = Some n" by auto
  let ?t1 = "update_at r (\<lambda>_. fst (remove_leaves n)) t"
  let ?res = "int (length (existing (children n))) - 1"
  note rl = remove_leaves_at_run [OF Cons.prems(1) n]
  show ?case
  proof (cases "lc - ?res \<le> cc")
    case True
    with rl(1) have "reduce_nodes (r # ns) t lc cc = Inr (?t1, lc - ?res)" by simp
    with rl(2,3,4) show ?thesis by simp
  next
    case False
    from Cons.prems rl(3) have "\<forall>x\<in>set ns. node_at ?t1 x \<noteq> None"
      by (auto simp: grows_def)
    with Cons.IH [OF rl(2), of "lc - ?res"] obtain t' lc' where
      r: "reduce_nodes ns ?t1 (lc - ?res) cc = Inr (t', lc')" "wf_tree t'" "grows ?t1 t'"
        "\<forall>p. p \<notin> set ns \<longrightarrow> pc_at t' p = pc_at ?t1 p" by blast
    from False rl(1) r(1) have "reduce_nodes (r # ns) t lc cc = Inr (t', lc')" by simp
    moreover from rl(3) r(3) have "grows t t'" by (rule grows_trans)
    moreover from r(4) rl(4) have "\<forall>p. p \<notin> set (r # ns) \<longrightarrow> pc_at t' p = pc_at t p" by simp
    ultimately show ?thesis using r(2) by blast
  qed
qed

subsection \<open>The state between construction and \<^verbatim>\<open>make_palette\<close>\<close>

lemma length_route: "length (route M c level) = nat M - level"
  by (simp add: route_def)

lemma built_init: "OctreeQuantizer_init M = Inr (M', q) \<Longrightarrow> M' = M \<and> built M q"
proof -
  assume a: "OctreeQuantizer_init M = Inr (M', q)"
  have v: "(node_at fresh_node p \<noteq> None) = (p = [])" for p by (simp add: node_at_fresh)
  from a have M': "M' = M" and r: "root q = fresh_node"
    and l: "levels q = (if 0 < M - 1
                         then (\<lambda>i. if 0 \<le> i \<and> i < M then Some [] else None)(0 \<mapsto> [[]])
                         else (\<lambda>i. if 0 \<le> i \<and> i < M then Some [] else None))"
    by (auto simp: OctreeQuantizer_init_value fresh_node_def)
  have "registry M fresh_node (levels q)"
    unfolding registry_def l v by auto
  moreover have "\<forall>p k. pi_at fresh_node p = Some k \<longrightarrow> k = 0"
    by (auto simp: pi_at_def node_at_fresh split: if_splits)
  moreover have "\<forall>p k. pc_at fresh_node p = Some k \<and> int (length p) < M \<longrightarrow> k = 0"
    by (auto simp: pc_at_def node_at_fresh split: if_splits)
  ultimately show ?thesis using M' r by (simp add: built_def wf_tree_fresh)
qed

lemma registry_keys: "registry M t lv \<Longrightarrow> (lv i = None) = (\<not> (0 \<le> i \<and> i < M))"
  unfolding registry_def by (metis option.distinct(1))

lemma registry_valid:
  assumes "registry M t lv" "lv i = Some ns" "r \<in> set ns"
  shows "node_at t r \<noteq> None"
proof -
  from assms(1,2) have i: "0 \<le> i \<and> i < M"
    using registry_keys [OF assms(1), of i] by auto
  with assms(1) obtain ns' where "lv i = Some ns'"
     "set ns' = (if i < M - 1
                            then {p. node_at t p \<noteq> None \<and> int (length p) = i + 1}
                                   \<union> (if i = 0 then {[]} else {})
                            else {})"
    unfolding registry_def by (metis (no_types, lifting))
  with assms(2,3) show ?thesis by (auto split: if_splits)
qed

lemma quantizer_add_color_built:
  assumes b: "built M q"
  shows "\<exists>q'. quantizer_add_color M q c = Inr q' \<and> built M q' \<and>
           (\<forall>p. node_at (root q) p \<noteq> None \<longrightarrow> node_at (root q') p \<noteq> None) \<and>
           (\<forall>p k. pc_at (root q) p = Some k \<longrightarrow> (\<exists>k'. pc_at (root q') p = Some k' \<and> k \<le> k')) \<and>
           (\<exists>k>0. pc_at (root q') (route M c 0) = Some k)"
proof -
  from b have wf: "wf_tree (root q)" and reg: "registry M (root q) (levels q)"
    and pi0: "\<forall>p k. pi_at (root q) p = Some k \<longrightarrow> k = 0"
    and pc0: "\<forall>p k. pc_at (root q) p = Some k \<and> int (length p) < M \<longrightarrow> k = 0"
    by (simp_all add: built_def)
  have "\<forall>l. 0 \<le> l \<and> int l < M - 1 \<longrightarrow> levels q (int l) \<noteq> None"
    using registry_keys [OF reg] by auto
  then obtain t' lv' where run: "add_color M (root q) [] (levels q) c 0 = Inr (t', lv')"
    using add_color_succeeds [of 0 M "levels q" "root q" "[]" c] by blast
  let ?q' = "\<lparr>levels = lv', root = t'\<rparr>"
  let ?rt = "route M c 0"
  have res: "quantizer_add_color M q c = Inr ?q'"
    using run by (simp add: quantizer_add_color_def)
  have wf': "wf_tree t'" using run wf by (rule add_color_wf)
  note valid = add_color_valid [OF run wf]
  note pi = add_color_pi_at [OF run wf]
  note pc = add_color_pc_at [OF run wf]
  note lv = add_color_levels [OF run wf]
  have pi0': "\<forall>p k. pi_at t' p = Some k \<longrightarrow> k = 0"
    using pi pi0 by (auto split: if_splits)
  have len: "length ?rt = nat M" by (simp add: length_route)
  have pc_old: "\<exists>k'. pc_at t' p = Some k' \<and> k \<le> k'" if "pc_at (root q) p = Some k" for p k
    using pc [of p] that by (auto simp: pc_at_def)
  have pc_route: "\<exists>k>0. pc_at t' ?rt = Some k"
  proof (cases "pc_at (root q) ?rt")
    case None
    with pc [of ?rt] show ?thesis by simp
  next
    case (Some k)
    then have "node_at (root q) ?rt \<noteq> None" by (auto simp: pc_at_def)
    with wf have "0 \<le> k" using Some by (auto simp: wf_tree_def pc_at_def)
    with pc [of ?rt] Some show ?thesis by simp
  qed
  have pc0': "\<forall>p k. pc_at t' p = Some k \<and> int (length p) < M \<longrightarrow> k = 0"
  proof (intro allI impI)
    fix p k assume a: "pc_at t' p = Some k \<and> int (length p) < M"
    with len have "p \<noteq> ?rt" by (auto split: if_splits)
    with pc [of p] a pc0 show "k = 0" by (auto split: if_splits)
  qed
  have reg': "registry M t' lv'"
    unfolding registry_def
  proof (intro allI)
    fix i :: int
    show "if 0 \<le> i \<and> i < M
           then (\<exists>ns. lv' i = Some ns \<and> distinct ns \<and>
                  set ns = (if i < M - 1
                            then {p. node_at t' p \<noteq> None \<and> int (length p) = i + 1}
                                   \<union> (if i = 0 then {[]} else {})
                            else {}) \<and>
                  (i = 0 \<and> i < M - 1 \<longrightarrow> (\<exists>ns'. ns = [] # ns')))
           else lv' i = None"
    proof (cases "0 \<le> i \<and> i < M")
      case False
      with registry_keys [OF reg, of i] lv [of i] show ?thesis by simp
    next
      case True
      with reg obtain ns where ns: "levels q i = Some ns" "distinct ns"
        "set ns = (if i < M - 1
                            then {p. node_at (root q) p \<noteq> None \<and> int (length p) = i + 1}
                                   \<union> (if i = 0 then {[]} else {})
                            else {})"
        "i = 0 \<and> i < M - 1 \<longrightarrow> (\<exists>ns'. ns = [] # ns')"
        unfolding registry_def by (metis (no_types, lifting))
      let ?x = "take (nat i + 1) ?rt"
      show ?thesis
      proof (cases "i < M - 1")
        case False
        with True ns lv [of i] show ?thesis by simp
      next
        case lt: True
        with True len have lx: "int (length ?x) = i + 1" by simp
        have px: "prefix ?x ?rt" by (rule take_is_prefix)
        have new: "{p. node_at t' p \<noteq> None \<and> int (length p) = i + 1}
            = {p. node_at (root q) p \<noteq> None \<and> int (length p) = i + 1} \<union> {?x}"
        proof (intro set_eqI iffI)
          fix p assume "p \<in> {p. node_at t' p \<noteq> None \<and> int (length p) = i + 1}"
          then have v: "node_at (root q) p \<noteq> None \<or> prefix p ?rt" and l: "int (length p) = i + 1"
            using valid [of p] by auto
          from v show "p \<in> {p. node_at (root q) p \<noteq> None \<and> int (length p) = i + 1} \<union> {?x}"
          proof
            assume "node_at (root q) p \<noteq> None"
            with l show ?thesis by simp
          next
            assume "prefix p ?rt"
            then have "p = take (length p) ?rt" by (metis append_eq_conv_conj prefix_def)
            moreover from l True have "length p = nat i + 1" by linarith
            ultimately show ?thesis by simp
          qed
        next
          fix p assume "p \<in> {p. node_at (root q) p \<noteq> None \<and> int (length p) = i + 1} \<union> {?x}"
          then show "p \<in> {p. node_at t' p \<noteq> None \<and> int (length p) = i + 1}"
            using valid [of p] px lx by auto
        qed
        show ?thesis
        proof (cases "node_at (root q) ?x = None")
          case False
          with lx have "?x \<in> {p. node_at (root q) p \<noteq> None \<and> int (length p) = i + 1}" by simp
          with new have "{p. node_at t' p \<noteq> None \<and> int (length p) = i + 1}
            = {p. node_at (root q) p \<noteq> None \<and> int (length p) = i + 1}" by blast
          moreover from False ns(1) lv [of i] True have "lv' i = Some ns" by simp
          ultimately show ?thesis using True ns by simp
        next
          case None: True
          with ns(1) lv [of i] True lt have l': "lv' i = Some (ns @ [?x])" by simp
          from lx True have "?x \<noteq> []" by auto
          with None ns(3) lt have "?x \<notin> set ns" by (auto split: if_splits)
          with ns(2) have "distinct (ns @ [?x])" by simp
          moreover have "set (ns @ [?x]) = {p. node_at t' p \<noteq> None \<and> int (length p) = i + 1}
                                   \<union> (if i = 0 then {[]} else {})"
            using ns(3) lt new by auto
          moreover have "i = 0 \<and> i < M - 1 \<longrightarrow> (\<exists>ns'. ns @ [?x] = [] # ns')"
            using ns(4) by auto
          ultimately show ?thesis using True lt l' by simp
        qed
      qed
    qed
  qed
  have "built M ?q'" using wf' reg' pi0' pc0' by (simp add: built_def)
  moreover have "\<forall>p. node_at (root q) p \<noteq> None \<longrightarrow> node_at (root ?q') p \<noteq> None"
    using valid by simp
  ultimately show ?thesis using res pc_old pc_route by auto
qed

lemma add_colors_built:
  assumes "built M q"
  shows "\<exists>q'. add_colors M q cs = Inr q' \<and> built M q' \<and>
           (\<forall>p k. pc_at (root q) p = Some k \<longrightarrow> (\<exists>k'. pc_at (root q') p = Some k' \<and> k \<le> k')) \<and>
           (\<forall>c\<in>set cs. \<exists>k>0. pc_at (root q') (route M c 0) = Some k)"
  using assms
proof (induction cs arbitrary: q)
  case Nil
  then show ?case by simp
next
  case (Cons c cs)
  from quantizer_add_color_built [OF Cons.prems, of c] obtain q1 where
    q1: "quantizer_add_color M q c = Inr q1" "built M q1"
      "\<forall>p k. pc_at (root q) p = Some k \<longrightarrow> (\<exists>k'. pc_at (root q1) p = Some k' \<and> k \<le> k')"
      "\<exists>k>0. pc_at (root q1) (route M c 0) = Some k" by blast
  from Cons.IH [OF q1(2)] obtain q' where
    q': "add_colors M q1 cs = Inr q'" "built M q'"
      "\<forall>p k. pc_at (root q1) p = Some k \<longrightarrow> (\<exists>k'. pc_at (root q') p = Some k' \<and> k \<le> k')"
      "\<forall>c\<in>set cs. \<exists>k>0. pc_at (root q') (route M c 0) = Some k" by blast
  have "add_colors M q (c # cs) = Inr q'" using q1(1) q'(1) by simp
  moreover have "\<forall>p k. pc_at (root q) p = Some k \<longrightarrow> (\<exists>k'. pc_at (root q') p = Some k' \<and> k \<le> k')"
    using q1(3) q'(3) by (meson order_trans)
  moreover have "\<exists>k>0. pc_at (root q') (route M c 0) = Some k"
    using q1(4) q'(3) by (metis less_le_trans)
  ultimately show ?case using q'(2,4) by auto
qed

lemma reduce_levels_run:
  assumes "wf_tree (root q)"
    "\<forall>i. 0 \<le> i \<and> i < int n \<longrightarrow> (\<exists>ns. levels q i = Some ns \<and> (\<forall>r\<in>set ns. node_at (root q) r \<noteq> None))"
  shows "\<exists>q' lc'. reduce_levels n q lc cc = Inr (q', lc') \<and> wf_tree (root q') \<and>
           grows (root q) (root q') \<and> (\<forall>i. levels q' i = levels q i \<or> levels q' i = Some [])"
  using assms
proof (induction n arbitrary: q lc)
  case 0
  then show ?case by (simp add: grows_refl)
next
  case (Suc level)
  from Suc.prems(2) obtain ns where ns: "levels q (int level) = Some ns"
    "\<forall>r\<in>set ns. node_at (root q) r \<noteq> None"
    by (metis of_nat_0_le_iff of_nat_less_iff lessI)
  have lower: "\<forall>i. 0 \<le> i \<and> i < int level \<longrightarrow>
      (\<exists>ns. levels q i = Some ns \<and> (\<forall>r\<in>set ns. node_at (root q) r \<noteq> None))"
    using Suc.prems(2) by simp
  show ?case
  proof (cases "ns = []")
    case True
    from Suc.IH [OF Suc.prems(1) lower, of lc] ns True show ?thesis by simp
  next
    case False
    from reduce_nodes_run [OF Suc.prems(1) ns(2), of lc cc] obtain t lc1 where
      rn: "reduce_nodes ns (root q) lc cc = Inr (t, lc1)" "wf_tree t" "grows (root q) t" by blast
    show ?thesis
    proof (cases "lc1 \<le> cc")
      case True
      with rn ns False show ?thesis by simp
    next
      case gt: False
      let ?q1 = "q\<lparr>root := t, levels := (levels q)(int level \<mapsto> [])\<rparr>"
      have "\<forall>i. 0 \<le> i \<and> i < int level \<longrightarrow>
        (\<exists>ns. levels ?q1 i = Some ns \<and> (\<forall>r\<in>set ns. node_at (root ?q1) r \<noteq> None))"
        using lower rn(3) by (auto simp: grows_def)
      moreover have "wf_tree (root ?q1)" using rn(2) by simp
      ultimately obtain q' lc' where
        r: "reduce_levels level ?q1 lc1 cc = Inr (q', lc')" "wf_tree (root q')"
          "grows (root ?q1) (root q')" "\<forall>i. levels q' i = levels ?q1 i \<or> levels q' i = Some []"
        using Suc.IH [of ?q1 lc1] by blast
      have "reduce_levels (Suc level) q lc cc = Inr (q', lc')"
        using ns False rn(1) gt r(1) by simp
      moreover have "grows (root q) (root q')" using rn(3) r(3) by (auto intro: grows_trans)
      moreover have "\<forall>i. levels q' i = levels q i \<or> levels q' i = Some []"
        using r(4) by (auto split: if_splits)
      ultimately show ?thesis using r(2) by blast
    qed
  qed
qed

lemma first_leaf_exists: "leaf_at t p \<Longrightarrow> p \<noteq> [] \<Longrightarrow> \<exists>q. first_leaf t q"
proof (induction p arbitrary: t)
  case Nil
  then show ?case by simp
next
  case (Cons i p)
  from Cons.prems(1) obtain ch where ch: "child_at t i = Some ch" "leaf_at ch p"
    by (auto simp: leaf_at_Cons split: option.splits)
  show ?case
  proof (cases "is_leaf ch")
    case True
    with ch have "first_leaf t [i]" by (simp add: first_leaf_Cons)
    then show ?thesis by blast
  next
    case False
    with ch(2) have "p \<noteq> []" by auto
    with Cons.IH [OF ch(2)] obtain q where "first_leaf ch q" by blast
    with ch False have "first_leaf t (i # q)" by (simp add: first_leaf_Cons)
    then show ?thesis by blast
  qed
qed

lemma get_leaf_nodes_nonempty: "leaf_at t p \<Longrightarrow> p \<noteq> [] \<Longrightarrow> get_leaf_nodes t r \<noteq> []"
  using first_leaf_exists [of t p] leaf_nodes_sets(1) [of t r] by fastforce

lemma get_leaf_nodes_leaf_at: "x \<in> set (get_leaf_nodes t []) \<Longrightarrow> leaf_at t x"
  using leaf_nodes_sets(1) [of t "[]"] by (auto simp: first_leaf_def)

lemma make_palette_run:
  assumes "built M q"
  shows "\<exists>q1 lc pal. reduce_levels (nat M) q (int (length (get_leaves q))) cc = Inr (q1, lc) \<and>
           wf_tree (root q1) \<and> grows (root q) (root q1) \<and>
           make_palette M q cc =
             Inr (q1\<lparr>root := number_leaves (take (nat cc) (get_leaves q1)) 0 (root q1)\<rparr>, pal) \<and>
           map Some pal = map (avg_at (root q1)) (take (nat cc) (get_leaves q1))"
proof -
  from assms have wf: "wf_tree (root q)" and reg: "registry M (root q) (levels q)"
    by (simp_all add: built_def)
  have "\<forall>i. 0 \<le> i \<and> i < int (nat M) \<longrightarrow>
      (\<exists>ns. levels q i = Some ns \<and> (\<forall>r\<in>set ns. node_at (root q) r \<noteq> None))"
  proof (intro allI impI)
    fix i assume "0 \<le> i \<and> i < int (nat M)"
    then have "0 \<le> i \<and> i < M" by linarith
    then have "levels q i \<noteq> None" using registry_keys [OF reg, of i] by simp
    then obtain ns where "levels q i = Some ns" by auto
    with registry_valid [OF reg this]
    show "\<exists>ns. levels q i = Some ns \<and> (\<forall>r\<in>set ns. node_at (root q) r \<noteq> None)" by blast
  qed
  from reduce_levels_run [OF wf this, of "int (length (get_leaves q))" cc] obtain q1 lc where
    r: "reduce_levels (nat M) q (int (length (get_leaves q))) cc = Inr (q1, lc)"
      "wf_tree (root q1)" "grows (root q) (root q1)" by blast
  have "\<forall>x\<in>set (get_leaves q1). leaf_at (root q1) x"
    by (auto simp: get_leaves_def dest: get_leaf_nodes_leaf_at)
  moreover have "distinct (get_leaves q1)"
    by (simp add: get_leaves_def leaf_nodes_distinct)
  ultimately obtain pal where
    b: "build_palette (get_leaves q1) (root q1) [] 0 cc
          = Inr (number_leaves (take (nat (cc - 0)) (get_leaves q1)) 0 (root q1), pal)"
       "map Some pal = map Some [] @ map (avg_at (root q1)) (take (nat (cc - 0)) (get_leaves q1))"
    using build_palette_run [of "get_leaves q1" "root q1" "[]" 0 cc] by blast
  from r(1) b(1) have "make_palette M q cc =
      Inr (q1\<lparr>root := number_leaves (take (nat cc) (get_leaves q1)) 0 (root q1)\<rparr>, pal)"
    by (simp add: make_palette_def)
  with r b(2) show ?thesis by simp
qed

lemma quantize_run:
  "\<exists>q0 q. OctreeQuantizer_init max_depth = Inr (max_depth, q0) \<and> built max_depth q0 \<and>
     add_colors max_depth q0 cs = Inr q \<and> built max_depth q \<and>
     (\<forall>c\<in>set cs. \<exists>k>0. pc_at (root q) (route max_depth c 0) = Some k) \<and>
     quantize max_depth cs color_count = make_palette max_depth q color_count"
proof -
  obtain q0 where i: "OctreeQuantizer_init max_depth = Inr (max_depth, q0)"
    by (simp add: OctreeQuantizer_init_value)
  then have b0: "built max_depth q0" by (simp add: built_init)
  from add_colors_built [OF b0, of cs] obtain q where
    q: "add_colors max_depth q0 cs = Inr q" "built max_depth q"
       "\<forall>c\<in>set cs. \<exists>k>0. pc_at (root q) (route max_depth c 0) = Some k" by blast
  from i q(1) have "quantize max_depth cs color_count = make_palette max_depth q color_count"
    by (simp add: quantize_def)
  with i b0 q show ?thesis by blast
qed



declare descent.simps [simp del]

subsection \<open>Lookup\<close>

lemma first_child_index:
  "first_child cs = (case first_index cs of None \<Rightarrow> None | Some i \<Rightarrow> cs ! i)"
  "first_index cs = Some i \<Longrightarrow> i < length cs"
  by (induction cs arbitrary: i rule: first_index.induct) (auto split: option.splits)

lemma first_child_child_at:
  "first_child (children t) = (case first_index (children t) of None \<Rightarrow> None | Some i \<Rightarrow> child_at t i)"
  using first_child_index [of "children t"]
  by (auto simp: child_at_def split: option.splits)

lemma get_palette_index_descent:
  "get_palette_index t c level = (case descent t c level of None \<Rightarrow> None | Some r \<Rightarrow> pi_at t r)"
proof (induction t c level rule: get_palette_index.induct)
  case (1 self c level)
  let ?i = "get_color_index_for_level c level"
  show ?case
  proof (cases "is_leaf self")
    case True
    then show ?thesis
      by (subst get_palette_index.simps, subst descent.simps) (simp add: pi_at_def)
  next
    case nl: False
    show ?thesis
    proof (cases "child_at self ?i")
      case (Some ch)
      from "1.IH"(2) [OF nl refl Some]
      have "get_palette_index ch c (level + 1) =
        (case descent ch c (level + 1) of None \<Rightarrow> None | Some r \<Rightarrow> pi_at ch r)" .
      with nl Some show ?thesis
        by (subst get_palette_index.simps, subst descent.simps)
           (auto simp: pi_at_def node_at_Some_Cons split: option.splits)
    next
      case None
      show ?thesis
      proof (cases "first_child (children self)")
        case n2: None
        with nl None show ?thesis
          by (subst get_palette_index.simps, subst descent.simps)
             (auto simp: first_child_child_at split: option.splits)
      next
        case (Some ch)
        then obtain i where i: "first_index (children self) = Some i" "child_at self i = Some ch"
          by (auto simp: first_child_child_at split: option.splits)
        from "1.IH"(1) [OF nl refl None Some]
        have "get_palette_index ch c (level + 1) =
          (case descent ch c (level + 1) of None \<Rightarrow> None | Some r \<Rightarrow> pi_at ch r)" .
        with nl None Some i show ?thesis
          by (subst get_palette_index.simps, subst descent.simps)
             (auto simp: pi_at_def node_at_Some_Cons split: option.splits)
      qed
    qed
  qed
qed

lemma descent_route:
  "leaf_at t (route M c level) \<Longrightarrow>
     \<exists>r. prefix r (route M c level) \<and> descent t c level = Some r \<and> leaf_at t r \<and>
         (\<forall>q. strict_prefix q r \<longrightarrow> \<not> leaf_at t q)"
proof (induction "nat M - level" arbitrary: t level)
  case 0
  then have "route M c level = []" by (simp add: route_def)
  with "0.prems" have "is_leaf t" by simp
  then have "descent t c level = Some []" by (subst descent.simps) simp
  with \<open>is_leaf t\<close> show ?case by auto
next
  case (Suc k)
  then have lt: "int level < M" by linarith
  let ?i = "get_color_index_for_level c level"
  have rt: "route M c level = ?i # route M c (level + 1)" using lt by (rule route_step)
  show ?case
  proof (cases "is_leaf t")
    case True
    then have "descent t c level = Some []" by (subst descent.simps) simp
    with True show ?thesis by auto
  next
    case nl: False
    from Suc.prems rt obtain ch where ch: "child_at t ?i = Some ch" "leaf_at ch (route M c (level + 1))"
      by (auto simp: leaf_at_Cons split: option.splits)
    from Suc.hyps(2) have "k = nat M - (level + 1)" by simp
    from Suc.hyps(1) [OF this ch(2)] obtain r where
      r: "prefix r (route M c (level + 1))" "descent ch c (level + 1) = Some r" "leaf_at ch r"
        "\<forall>q. strict_prefix q r \<longrightarrow> \<not> leaf_at ch q" by blast
    have "descent t c level = Some (?i # r)"
      using nl ch(1) r(2) by (subst descent.simps) simp
    moreover have "prefix (?i # r) (route M c level)" using r(1) rt by simp
    moreover have "leaf_at t (?i # r)" using ch(1) r(3) by (simp add: leaf_at_Cons)
    moreover have "\<forall>q. strict_prefix q (?i # r) \<longrightarrow> \<not> leaf_at t q"
    proof (intro allI impI)
      fix q assume q: "strict_prefix q (?i # r)"
      show "\<not> leaf_at t q"
      proof (cases q)
        case Nil
        with nl show ?thesis by simp
      next
        case (Cons j q')
        with q have "j = ?i" "strict_prefix q' r" by auto
        with r(4) ch(1) Cons show ?thesis by (simp add: leaf_at_Cons)
      qed
    qed
    ultimately show ?thesis by blast
  qed
qed

subsection \<open>The root during reduction\<close>

lemma children_pc_zero:
  assumes "\<forall>j k. pc_at t [j] = Some k \<longrightarrow> k = 0"
  shows "sum_list (map pixel_count (existing (children t))) = 0"
proof -
  have "x = 0" if "x \<in> set (map pixel_count (existing (children t)))" for x
  proof -
    from that obtain ch where "ch \<in> set (existing (children t))" "x = pixel_count ch" by auto
    then obtain j where "child_at t j = Some ch" by (auto dest: existing_child_at)
    then have "pc_at t [j] = Some (pixel_count ch)"
      by (simp add: pc_at_def node_at_Some_Cons)
    with assms \<open>x = pixel_count ch\<close> show ?thesis by simp
  qed
  then have "map pixel_count (existing (children t)) = replicate (length (existing (children t))) 0"
    by (simp add: map_replicate_const [symmetric] del: map_replicate_const)
  then show ?thesis by (metis sum_list_replicate mult_zero_right)
qed

lemma reduce_levels_root:
  assumes "root_safe n q" "reduce_levels n q lc cc = Inr (q', lc')"
  shows "pc_at (root q') [] = Some 0"
  using assms
proof (induction n arbitrary: q lc)
  case 0
  then show ?case by (simp add: root_safe_def)
next
  case (Suc level)
  from Suc.prems(1) have wf: "wf_tree (root q)" and r0: "pc_at (root q) [] = Some 0"
    and lv: "\<forall>i. 0 \<le> i \<and> i < int (Suc level) \<longrightarrow>
         (\<exists>ns. levels q i = Some ns \<and> (\<forall>r\<in>set ns. node_at (root q) r \<noteq> None) \<and>
            (1 \<le> i \<longrightarrow> (\<forall>r\<in>set ns. 2 \<le> length r)) \<and>
            (i = 0 \<longrightarrow> ns = [] \<or>
               ((\<exists>ns'. ns = [] # ns' \<and> [] \<notin> set ns') \<and>
                (\<forall>j k. pc_at (root q) [j] = Some k \<longrightarrow> k = 0))))"
    by (simp_all add: root_safe_def)
  from lv [rule_format, of "int level"] obtain ns where
    ns: "levels q (int level) = Some ns" "\<forall>r\<in>set ns. node_at (root q) r \<noteq> None"
      "1 \<le> level \<longrightarrow> (\<forall>r\<in>set ns. 2 \<le> length r)"
      "level = 0 \<longrightarrow> ns = [] \<or>
               ((\<exists>ns'. ns = [] # ns' \<and> [] \<notin> set ns') \<and>
                (\<forall>j k. pc_at (root q) [j] = Some k \<longrightarrow> k = 0))"
    by auto
  show ?case
  proof (cases "ns = []")
    case True
    from Suc.prems(1) have "root_safe level q" by (simp add: root_safe_def)
    moreover from Suc.prems(2) ns(1) True have "reduce_levels level q lc cc = Inr (q', lc')" by simp
    ultimately show ?thesis by (rule Suc.IH)
  next
    case False
    from reduce_nodes_run [OF wf ns(2), of lc cc] obtain t lc1 where
      rn: "reduce_nodes ns (root q) lc cc = Inr (t, lc1)" "wf_tree t" "grows (root q) t"
        "\<forall>p. p \<notin> set ns \<longrightarrow> pc_at t p = pc_at (root q) p" by blast
    have t0: "pc_at t [] = Some 0"
    proof (cases "level = 0")
      case False
      with ns(3) have "[] \<notin> set ns" by auto
      with rn(4) r0 show ?thesis by simp
    next
      case True
      with ns(4) False obtain ns' where ns': "ns = [] # ns'" "[] \<notin> set ns'"
        and z: "\<forall>j k. pc_at (root q) [j] = Some k \<longrightarrow> k = 0" by blast
      have n: "node_at (root q) [] = Some (root q)" by simp
      note rl = remove_leaves_at_run [OF wf n]
      let ?t1 = "update_at [] (\<lambda>_. fst (remove_leaves (root q))) (root q)"
      let ?res = "int (length (existing (children (root q)))) - 1"
      from r0 have "pixel_count (root q) = 0" by (simp add: pc_at_def)
      with rl(4) [of "[]"] children_pc_zero [OF z] have t1: "pc_at ?t1 [] = Some 0" by simp
      show ?thesis
      proof (cases "lc - ?res \<le> cc")
        case True
        with rn(1) ns'(1) rl(1) have "t = ?t1" by simp
        with t1 show ?thesis by simp
      next
        case False
        with rn(1) ns'(1) rl(1) have r2: "reduce_nodes ns' ?t1 (lc - ?res) cc = Inr (t, lc1)" by simp
        from ns(2) ns'(1) rl(3) have "\<forall>r\<in>set ns'. node_at ?t1 r \<noteq> None"
          by (auto simp: grows_def)
        from reduce_nodes_run [OF rl(2) this, of "lc - ?res" cc] r2
        have "\<forall>p. p \<notin> set ns' \<longrightarrow> pc_at t p = pc_at ?t1 p" by auto
        with ns'(2) t1 show ?thesis by simp
      qed
    qed
    show ?thesis
    proof (cases "lc1 \<le> cc")
      case True
      with Suc.prems(2) ns(1) False rn(1) have "q' = q\<lparr>root := t\<rparr>" by simp
      with t0 show ?thesis by simp
    next
      case gt: False
      let ?q1 = "q\<lparr>root := t, levels := (levels q)(int level \<mapsto> [])\<rparr>"
      from Suc.prems(2) ns(1) False rn(1) gt
      have run: "reduce_levels level ?q1 lc1 cc = Inr (q', lc')" by simp
      have "root_safe level ?q1"
        unfolding root_safe_def
      proof (intro conjI allI impI)
        show "wf_tree (root ?q1)" using rn(2) by simp
        show "pc_at (root ?q1) [] = Some 0" using t0 by simp
      next
        fix i assume i: "0 \<le> i \<and> i < int level"
        then have l1: "1 \<le> level" by simp
        with ns(3) have big: "\<forall>r\<in>set ns. 2 \<le> length r" by simp
        from i lv [rule_format, of i] obtain ms where
          ms: "levels q i = Some ms" "\<forall>r\<in>set ms. node_at (root q) r \<noteq> None"
            "1 \<le> i \<longrightarrow> (\<forall>r\<in>set ms. 2 \<le> length r)"
            "i = 0 \<longrightarrow> ms = [] \<or>
               ((\<exists>ns'. ms = [] # ns' \<and> [] \<notin> set ns') \<and>
                (\<forall>j k. pc_at (root q) [j] = Some k \<longrightarrow> k = 0))"
          by auto
        have one: "pc_at t [j] = pc_at (root q) [j]" for j
        proof -
          from big have "[j] \<notin> set ns" by auto
          with rn(4) show ?thesis by simp
        qed
        from i have "levels ?q1 i = Some ms" using ms(1) by simp
        moreover have "\<forall>r\<in>set ms. node_at (root ?q1) r \<noteq> None"
          using ms(2) rn(3) by (auto simp: grows_def)
        moreover have "i = 0 \<longrightarrow> ms = [] \<or>
               ((\<exists>ns'. ms = [] # ns' \<and> [] \<notin> set ns') \<and>
                (\<forall>j k. pc_at (root ?q1) [j] = Some k \<longrightarrow> k = 0))"
          using ms(4) one by simp
        ultimately show "\<exists>ns. levels ?q1 i = Some ns \<and> (\<forall>r\<in>set ns. node_at (root ?q1) r \<noteq> None) \<and>
            (1 \<le> i \<longrightarrow> (\<forall>r\<in>set ns. 2 \<le> length r)) \<and>
            (i = 0 \<longrightarrow> ns = [] \<or>
               ((\<exists>ns'. ns = [] # ns' \<and> [] \<notin> set ns') \<and>
                (\<forall>j k. pc_at (root ?q1) [j] = Some k \<longrightarrow> k = 0)))"
          using ms(3) by blast
      qed
      then show ?thesis using run by (rule Suc.IH)
    qed
  qed
qed

lemma built_root_safe:
  assumes "built M q" "1 \<le> M"
  shows "root_safe (nat M) q"
proof -
  from assms(1) have wf: "wf_tree (root q)" and reg: "registry M (root q) (levels q)"
    and pc0: "\<forall>p k. pc_at (root q) p = Some k \<and> int (length p) < M \<longrightarrow> k = 0"
    by (simp_all add: built_def)
  have "pc_at (root q) [] = Some (pixel_count (root q))" by (simp add: pc_at_def)
  moreover have "int (length ([]::ref)) < M" using assms(2) by simp
  ultimately have "pixel_count (root q) = 0" using pc0 by blast
  then have r0: "pc_at (root q) [] = Some 0" by (simp add: pc_at_def)
  have "\<exists>ns. levels q i = Some ns \<and> (\<forall>r\<in>set ns. node_at (root q) r \<noteq> None) \<and>
            (1 \<le> i \<longrightarrow> (\<forall>r\<in>set ns. 2 \<le> length r)) \<and>
            (i = 0 \<longrightarrow> ns = [] \<or>
               ((\<exists>ns'. ns = [] # ns' \<and> [] \<notin> set ns') \<and>
                (\<forall>j k. pc_at (root q) [j] = Some k \<longrightarrow> k = 0)))"
    if i: "0 \<le> i \<and> i < int (nat M)" for i
  proof -
    from i have iM: "0 \<le> i \<and> i < M" by linarith
    with reg obtain ns where ns: "levels q i = Some ns" "distinct ns"
        "set ns = (if i < M - 1
                            then {p. node_at (root q) p \<noteq> None \<and> int (length p) = i + 1}
                                   \<union> (if i = 0 then {[]} else {})
                            else {})"
        "i = 0 \<and> i < M - 1 \<longrightarrow> (\<exists>ns'. ns = [] # ns')"
      unfolding registry_def by (metis (no_types, lifting))
    have v: "\<forall>r\<in>set ns. node_at (root q) r \<noteq> None"
      using registry_valid [OF reg ns(1)] by blast
    have two: "1 \<le> i \<longrightarrow> (\<forall>r\<in>set ns. 2 \<le> length r)"
      using ns(3) by (auto split: if_splits)
    have zero: "i = 0 \<longrightarrow> ns = [] \<or>
               ((\<exists>ns'. ns = [] # ns' \<and> [] \<notin> set ns') \<and>
                (\<forall>j k. pc_at (root q) [j] = Some k \<longrightarrow> k = 0))"
    proof
      assume i0: "i = 0"
      show "ns = [] \<or>
               ((\<exists>ns'. ns = [] # ns' \<and> [] \<notin> set ns') \<and>
                (\<forall>j k. pc_at (root q) [j] = Some k \<longrightarrow> k = 0))"
      proof (cases "i < M - 1")
        case False
        with ns(3) show ?thesis by simp
      next
        case True
        with i0 ns(4) obtain ns' where "ns = [] # ns'" by blast
        with ns(2) have "ns = [] # ns' \<and> [] \<notin> set ns'" by simp
        moreover from True i0 have "1 < M" by simp
        then have "int (length [j]) < M" for j :: nat by simp
        with pc0 have "\<forall>j k. pc_at (root q) [j] = Some k \<longrightarrow> k = 0" by blast
        ultimately show ?thesis by blast
      qed
    qed
    from ns(1) v two zero show ?thesis by blast
  qed
  with wf r0 show ?thesis unfolding root_safe_def by blast
qed

lemma quantize_result:
  assumes "quantize max_depth cs n = Inr (q, pal)"
  shows "\<exists>t1. root q = number_leaves (take (nat n) (get_leaf_nodes t1 [])) 0 t1 \<and>
           map Some pal = map (avg_at t1) (take (nat n) (get_leaf_nodes t1 [])) \<and>
           (\<forall>p k. pi_at t1 p = Some k \<longrightarrow> k = 0) \<and>
           (\<forall>c\<in>set cs. \<exists>k>0. pc_at t1 (route max_depth c 0) = Some k) \<and>
           (1 \<le> max_depth \<longrightarrow> pc_at t1 [] = Some 0)"
proof -
  from quantize_run [of max_depth cs n] obtain q0 where
    b: "built max_depth q0"
    and leafs: "\<forall>c\<in>set cs. \<exists>k>0. pc_at (root q0) (route max_depth c 0) = Some k"
    and qz: "quantize max_depth cs n = make_palette max_depth q0 n" by blast
  from make_palette_run [OF b, of n] obtain q1 lc pal' where
    rl: "reduce_levels (nat max_depth) q0 (int (length (get_leaves q0))) n = Inr (q1, lc)"
    and g: "grows (root q0) (root q1)"
    and mp: "make_palette max_depth q0 n =
             Inr (q1\<lparr>root := number_leaves (take (nat n) (get_leaves q1)) 0 (root q1)\<rparr>, pal')"
    and pal': "map Some pal' = map (avg_at (root q1)) (take (nat n) (get_leaves q1))"
    by blast
  from assms qz mp have q: "q = q1\<lparr>root := number_leaves (take (nat n) (get_leaves q1)) 0 (root q1)\<rparr>"
    and p: "pal = pal'" by simp_all
  let ?t1 = "root q1"
  have "root q = number_leaves (take (nat n) (get_leaf_nodes ?t1 [])) 0 ?t1"
    using q by (simp add: get_leaves_def)
  moreover have "map Some pal = map (avg_at ?t1) (take (nat n) (get_leaf_nodes ?t1 []))"
    using pal' p by (simp add: get_leaves_def)
  moreover have "\<forall>p k. pi_at ?t1 p = Some k \<longrightarrow> k = 0"
    using b g by (simp add: built_def grows_def)
  moreover have "\<forall>c\<in>set cs. \<exists>k>0. pc_at ?t1 (route max_depth c 0) = Some k"
  proof
    fix c assume "c \<in> set cs"
    with leafs obtain k where "0 < k" "pc_at (root q0) (route max_depth c 0) = Some k" by blast
    with g show "\<exists>k>0. pc_at ?t1 (route max_depth c 0) = Some k"
      unfolding grows_def by (metis less_le_trans)
  qed
  moreover have "1 \<le> max_depth \<longrightarrow> pc_at ?t1 [] = Some 0"
    using built_root_safe [OF b] reduce_levels_root [OF _ rl] by blast
  ultimately show ?thesis by blast
qed

lemma nth_not_in_take:
  assumes "distinct xs" "j < length xs" "m \<le> j"
  shows "xs ! j \<notin> set (take m xs)"
proof
  assume "xs ! j \<in> set (take m xs)"
  then obtain i where i: "i < length (take m xs)" "take m xs ! i = xs ! j"
    by (auto simp: in_set_conv_nth)
  then have "i < m" "i < length xs" "xs ! i = xs ! j" by simp_all
  with assms(1,2) have "i = j" by (simp add: nth_eq_iff_index_eq)
  with \<open>i < m\<close> assms(3) show False by simp
qed

lemma numbered_leaves:
  assumes pi0: "\<forall>p k. pi_at t1 p = Some k \<longrightarrow> k = 0"
    and j: "j < length (get_leaf_nodes t1 [])"
  shows "pi_at (number_leaves (take (nat n) (get_leaf_nodes t1 [])) 0 t1) (get_leaf_nodes t1 [] ! j)
           = Some (if int j < n then int j else 0)"
proof -
  let ?ls = "get_leaf_nodes t1 []"
  have d: "distinct ?ls" by (rule leaf_nodes_distinct)
  from j have "leaf_at t1 (?ls ! j)" by (simp add: get_leaf_nodes_leaf_at)
  then have v: "node_at t1 (?ls ! j) \<noteq> None" by (auto simp: leaf_at_def split: option.splits)
  show ?thesis
  proof (cases "int j < n")
    case True
    with j have jt: "j < length (take (nat n) ?ls)" by simp
    then have "take (nat n) ?ls ! j = ?ls ! j" by simp
    moreover from d have "distinct (take (nat n) ?ls)" by simp
    ultimately have "pi_at (number_leaves (take (nat n) ?ls) 0 t1) (?ls ! j) = Some (0 + int j)"
      using number_leaves_pi_nth [of "take (nat n) ?ls" j t1 0] jt v by simp
    with True show ?thesis by simp
  next
    case False
    then have "nat n \<le> j" by simp
    with d j have "?ls ! j \<notin> set (take (nat n) ?ls)" by (rule nth_not_in_take)
    then have "pi_at (number_leaves (take (nat n) ?ls) 0 t1) (?ls ! j) = pi_at t1 (?ls ! j)"
      by (rule number_leaves_pi_other)
    moreover from v pi0 have "pi_at t1 (?ls ! j) = Some 0"
      by (cases "node_at t1 (?ls ! j)") (auto simp: pi_at_def)
    ultimately show ?thesis using False by simp
  qed
qed

lemma quantize_succeeds: "\<exists>q palette. quantize max_depth cs n = Inr (q, palette)"
proof -
  from quantize_run [of max_depth cs n] obtain q where
    b: "built max_depth q"
    and qz: "quantize max_depth cs n = make_palette max_depth q n" by blast
  from make_palette_run [OF b, of n] qz show ?thesis by auto
qed

subsection \<open>Counting leaves\<close>

lemma leaf_count_ref:
  "length (get_leaf_nodes t r) = length (get_leaf_nodes t r')"
  "length (leaf_nodes_from cs r k) = length (leaf_nodes_from cs r' k')"
proof (induction t r and cs r k arbitrary: r' and r' k' rule: get_leaf_nodes_leaf_nodes_from.induct)
  case (1 c pc pi cs r)
  then show ?case by simp
next
  case (2 r i)
  show ?case by simp
next
  case (3 cs r i)
  then show ?case by simp
next
  case (4 node cs r i)
  have "length (leaf_nodes_from cs r (Suc i)) = length (leaf_nodes_from cs r' (Suc k'))"
    by (rule "4.IH"(2))
  moreover have "\<not> is_leaf node \<Longrightarrow>
      length (get_leaf_nodes node (r @ [i])) = length (get_leaf_nodes node (r' @ [k']))"
    by (rule "4.IH"(1))
  ultimately show ?case by simp
qed

lemma leaf_nodes_from_Some:
  "length (leaf_nodes_from (Some node # cs) r k) = leaves_under node + length (leaf_nodes_from cs r (Suc k))"
  using leaf_count_ref(1) [of node "r @ [k]" "[]"] by (simp add: leaves_under_def)

lemma leaf_nodes_from_update_length:
  "i < length cs \<Longrightarrow> cs ! i = Some ch \<Longrightarrow>
     length (leaf_nodes_from (cs[i := Some ch']) r k) + leaves_under ch
       = length (leaf_nodes_from cs r k) + leaves_under ch'"
proof (induction cs arbitrary: i k)
  case Nil
  then show ?case by simp
next
  case (Cons c cs)
  show ?case
  proof (cases i)
    case 0
    with Cons.prems show ?thesis
      by (simp add: leaf_nodes_from_Some del: leaf_nodes_from.simps(3))
  next
    case (Suc i')
    with Cons.prems have "length (leaf_nodes_from (cs[i' := Some ch']) r (Suc k)) + leaves_under ch
       = length (leaf_nodes_from cs r (Suc k)) + leaves_under ch'"
      by (intro Cons.IH) simp_all
    with Suc show ?thesis
      by (cases c) (simp_all add: leaf_nodes_from_Some del: leaf_nodes_from.simps(3))
  qed
qed

lemma all_leaves_count:
  "\<forall>ch\<in>set (existing cs). is_leaf ch \<Longrightarrow> length (leaf_nodes_from cs r k) = length (existing cs)"
  by (induction cs arbitrary: k rule: existing.induct) simp_all

lemma update_at_const: "node_at t r = Some n \<Longrightarrow> update_at r (\<lambda>_. f n) t = update_at r f t"
proof (induction r arbitrary: t)
  case Nil
  then show ?case by simp
next
  case (Cons i r)
  then show ?case by (cases "child_at t i") (simp_all add: node_at_Cons)
qed

lemma collapse_count:
  assumes f: "\<forall>m. children (f m) = children m"
    and n: "\<not> is_leaf n" "is_leaf (f n)" "\<forall>ch\<in>set (existing (children n)). is_leaf ch"
  shows "r \<noteq> [] \<Longrightarrow> node_at t r = Some n \<Longrightarrow>
         \<forall>q. q \<noteq> [] \<and> strict_prefix q r \<longrightarrow> \<not> leaf_at t q \<Longrightarrow>
         length (get_leaf_nodes (update_at r f t) r0) + length (existing (children n))
           = length (get_leaf_nodes t r0) + 1"
proof (induction r arbitrary: t r0)
  case Nil
  then show ?case by simp
next
  case (Cons i r)
  from Cons.prems(2) obtain ch where ch: "child_at t i = Some ch" "node_at ch r = Some n"
    by (auto simp: node_at_Cons split: option.splits)
  then have len: "i < length (children t)" and nth: "children t ! i = Some ch"
    by (auto simp: child_at_def split: if_splits)
  let ?ch' = "update_at r f ch"
  have upd: "length (get_leaf_nodes (update_at (i # r) f t) r0) + leaves_under ch
      = length (get_leaf_nodes t r0) + leaves_under ?ch'"
    using leaf_nodes_from_update_length [OF len nth, of ?ch' r0 0] ch(1)
    by (simp add: get_leaf_nodes_children set_child_def)
  show ?case
  proof (cases "r = []")
    case True
    with ch(2) have "ch = n" by simp
    with n(1,3) have "leaves_under ch = length (existing (children n))"
      by (simp add: leaves_under_def get_leaf_nodes_children all_leaves_count)
    moreover from True \<open>ch = n\<close> n(2) have "leaves_under ?ch' = 1"
      by (simp add: leaves_under_def)
    ultimately show ?thesis using upd by simp
  next
    case False
    then have "strict_prefix [i] (i # r)" by (cases r) auto
    with Cons.prems(3) have "\<not> leaf_at t [i]" by blast
    with ch(1) have nl: "\<not> is_leaf ch" by (simp add: leaf_at_Cons)
    have "pc_at ?ch' [] = pc_at ch []"
      using pc_update_at [OF f, of r ch "[]"] False by auto
    with nl have nl': "\<not> is_leaf ?ch'" by (simp add: pc_at_def is_leaf_def)
    have "\<forall>q. q \<noteq> [] \<and> strict_prefix q r \<longrightarrow> \<not> leaf_at ch q"
    proof (intro allI impI)
      fix q assume "q \<noteq> [] \<and> strict_prefix q r"
      then have "i # q \<noteq> [] \<and> strict_prefix (i # q) (i # r)" by simp
      with Cons.prems(3) have "\<not> leaf_at t (i # q)" by blast
      with ch(1) show "\<not> leaf_at ch q" by (simp add: leaf_at_Cons)
    qed
    from Cons.IH [OF False ch(2) this, of "[]"]
    have "length (get_leaf_nodes ?ch' []) + length (existing (children n))
           = length (get_leaf_nodes ch []) + 1" .
    with upd nl nl' show ?thesis by (simp add: leaves_under_def)
  qed
qed

lemma sum_list_pos_all:
  "xs \<noteq> [] \<Longrightarrow> \<forall>x\<in>set xs. (0::int) < x \<Longrightarrow> 0 < sum_list xs"
  by (induction xs) (auto simp: add_pos_nonneg sum_list_nonneg less_imp_le)

text \<open>
  \<^verbatim>\<open>remove_leaves\<close> through a reference: the fold and the returned value for any node;
  and, for a node below the root with a zero count whose existing children are all
  leaves, with no leaf strictly between the root and it, the node is a leaf afterwards
  and the returned value is the decrease in the number of enumerated leaves.
\<close>

lemma remove_leaves_at_below_root:
  assumes "node_at t r = Some node" and "remove_leaves_at r t = Inr (t', result)"
  shows "result = int (length (existing (children node))) - 1 \<and>
         (\<exists>node'. node_at t' r = Some node' \<and>
            pixel_count node' =
              pixel_count node + sum_list (map pixel_count (existing (children node))) \<and>
            red (color node') =
              red (color node) + sum_list (map (red \<circ> color) (existing (children node))) \<and>
            green (color node') =
              green (color node) + sum_list (map (green \<circ> color) (existing (children node))) \<and>
            blue (color node') =
              blue (color node) + sum_list (map (blue \<circ> color) (existing (children node))) \<and>
            children node' = children node) \<and>
         (r \<noteq> [] \<and> pixel_count node = 0 \<and> existing (children node) \<noteq> [] \<and>
          (\<forall>ch\<in>set (existing (children node)). is_leaf ch) \<and>
          (\<forall>q. q \<noteq> [] \<and> strict_prefix q r \<longrightarrow> \<not> leaf_at t q) \<longrightarrow>
            leaf_at t' r \<and>
            int (length (get_leaf_nodes t [])) - int (length (get_leaf_nodes t' [])) = result)"
proof -
  let ?f = "\<lambda>m. fst (remove_leaves m)"
  from assms have t': "t' = update_at r (\<lambda>_. ?f node) t"
    and res: "result = int (length (existing (children node))) - 1"
    by (simp_all add: remove_leaves_at_def remove_leaves_value)
  from assms(1) have t'': "t' = update_at r ?f t"
    unfolding t' by (rule update_at_const)
  have at: "node_at t' r = Some (?f node)"
    unfolding t'' using node_at_update_at_same [of r ?f t] assms(1) by simp
  have fields: "pixel_count (?f node) =
              pixel_count node + sum_list (map pixel_count (existing (children node))) \<and>
            red (color (?f node)) =
              red (color node) + sum_list (map (red \<circ> color) (existing (children node))) \<and>
            green (color (?f node)) =
              green (color node) + sum_list (map (green \<circ> color) (existing (children node))) \<and>
            blue (color (?f node)) =
              blue (color node) + sum_list (map (blue \<circ> color) (existing (children node))) \<and>
            children (?f node) = children node"
    by (simp add: remove_leaves_value)
  have "leaf_at t' r \<and>
        int (length (get_leaf_nodes t [])) - int (length (get_leaf_nodes t' [])) = result"
    if side: "r \<noteq> [] \<and> pixel_count node = 0 \<and> existing (children node) \<noteq> [] \<and>
          (\<forall>ch\<in>set (existing (children node)). is_leaf ch) \<and>
          (\<forall>q. q \<noteq> [] \<and> strict_prefix q r \<longrightarrow> \<not> leaf_at t q)"
  proof -
    from side have "\<forall>x\<in>set (map pixel_count (existing (children node))). 0 < x"
      by (auto simp: is_leaf_def)
    moreover from side have "map pixel_count (existing (children node)) \<noteq> []" by simp
    ultimately have "0 < sum_list (map pixel_count (existing (children node)))"
      by (rule sum_list_pos_all [rotated])
    with side fields have lf: "is_leaf (?f node)" by (simp add: is_leaf_def)
    from side have nl: "\<not> is_leaf node" by (simp add: is_leaf_def)
    have ch: "\<forall>m. children (?f m) = children m" by simp
    from side have "r \<noteq> []" and all: "\<forall>ch\<in>set (existing (children node)). is_leaf ch"
      and pre: "\<forall>q. q \<noteq> [] \<and> strict_prefix q r \<longrightarrow> \<not> leaf_at t q" by simp_all
    from collapse_count [OF ch nl lf all \<open>r \<noteq> []\<close> assms(1) pre, of "[]"]
    have "length (get_leaf_nodes t' []) + length (existing (children node))
           = length (get_leaf_nodes t []) + 1"
      unfolding t'' .
    then have "int (length (get_leaf_nodes t [])) - int (length (get_leaf_nodes t' [])) = result"
      unfolding res by linarith
    moreover from at lf have "leaf_at t' r" by (simp add: leaf_at_def)
    ultimately show ?thesis by simp
  qed
  with res at fields show ?thesis by blast
qed

text \<open>The node of depth 1 of the tree built from two blues under depth limit 2.\<close>

lemma remove_leaves_at_below_root_example:
  "built_tree 2 [Color3 0 0 0, Color3 0 0 64] = Inr two_blues_tree \<and>
   node_at two_blues_tree [0] = Some two_blues_inner \<and>
   remove_leaves_at [0] two_blues_tree = Inr (two_blues_reduced, 1) \<and>
   [0::nat] \<noteq> [] \<and> pixel_count two_blues_inner = 0 \<and>
   existing (children two_blues_inner) \<noteq> [] \<and>
   list_all is_leaf (existing (children two_blues_inner)) \<and>
   leaf_at two_blues_reduced [0] \<and>
   int (length (get_leaf_nodes two_blues_tree [])) -
     int (length (get_leaf_nodes two_blues_reduced [])) = 1 \<and>
   get_leaf_nodes two_blues_tree [] = [[0, 0], [0, 1]] \<and>
   get_leaf_nodes two_blues_reduced [] = [[0]]"
proof -
  have b: "built_tree 2 [Color3 0 0 0, Color3 0 0 64] = Inr two_blues_tree" by code_simp
  have n: "node_at two_blues_tree [0] = Some two_blues_inner" by code_simp
  have r: "remove_leaves_at [0] two_blues_tree = Inr (two_blues_reduced, 1)" by code_simp
  have l1: "get_leaf_nodes two_blues_tree [] = [[0, 0], [0, 1]]" by code_simp
  have l2: "get_leaf_nodes two_blues_reduced [] = [[0]]" by code_simp
  have pc: "pixel_count two_blues_inner = 0" by (simp add: two_blues_inner_def)
  have ex: "existing (children two_blues_inner) =
      [OctreeNode (Color3 0 0 0) 1 0 (replicate 8 None),
       OctreeNode (Color3 0 0 64) 1 0 (replicate 8 None)]"
    by (simp add: two_blues_inner_def)
  have all: "\<forall>ch\<in>set (existing (children two_blues_inner)). is_leaf ch"
    unfolding ex by (simp add: is_leaf_def)
  have pre: "\<forall>q. q \<noteq> [] \<and> strict_prefix q [0] \<longrightarrow> \<not> leaf_at two_blues_tree q"
  proof (intro allI impI)
    fix q :: ref assume "q \<noteq> [] \<and> strict_prefix q [0]"
    then have False by (cases q) auto
    then show "\<not> leaf_at two_blues_tree q" ..
  qed
  have side: "[0::nat] \<noteq> [] \<and> pixel_count two_blues_inner = 0 \<and>
     existing (children two_blues_inner) \<noteq> [] \<and>
     (\<forall>ch\<in>set (existing (children two_blues_inner)). is_leaf ch) \<and>
     (\<forall>q. q \<noteq> [] \<and> strict_prefix q [0] \<longrightarrow> \<not> leaf_at two_blues_tree q)"
    using pc ex all pre by simp
  from remove_leaves_at_below_root [OF n r] side
  have "leaf_at two_blues_reduced [0] \<and>
     int (length (get_leaf_nodes two_blues_tree [])) -
       int (length (get_leaf_nodes two_blues_reduced [])) = 1" by blast
  moreover from all have "list_all is_leaf (existing (children two_blues_inner))"
    by (simp add: list_all_iff)
  ultimately show ?thesis using b n r pc ex l1 l2 by simp
qed

subsection \<open>A quantizer under another depth limit\<close>

lemma init_levels_keys:
  assumes "OctreeQuantizer_init m1 = Inr (M, a)"
  shows "root a = fresh_node" and "0 \<le> i \<and> i < m1 \<Longrightarrow> levels a i \<noteq> None"
  using assms by (auto simp: OctreeQuantizer_init_value fresh_node_def)

lemma first_add_under_other_limit:
  assumes init: "OctreeQuantizer_init m1 = Inr (m1, a)" and le: "m2 \<le> m1 + 1"
  shows "\<exists>q. quantizer_add_color m2 a c = Inr q \<and>
           (\<forall>p. (node_at (root q) p \<noteq> None) = prefix p (route m2 c 0)) \<and>
           leaf_at (root q) (route m2 c 0)"
proof -
  note ia = init_levels_keys [OF init]
  have "\<forall>l. 0 \<le> l \<and> int l < m2 - 1 \<longrightarrow> levels a (int l) \<noteq> None"
  proof (intro allI impI)
    fix l :: nat assume "0 \<le> l \<and> int l < m2 - 1"
    with le have "0 \<le> int l \<and> int l < m1" by linarith
    then show "levels a (int l) \<noteq> None" by (rule ia(2))
  qed
  then obtain t' lv' where run: "add_color m2 (root a) [] (levels a) c 0 = Inr (t', lv')"
    using add_color_succeeds [of 0 m2 "levels a" "root a" "[]" c] by blast
  have wf: "wf_tree (root a)" unfolding ia(1) by (rule wf_tree_fresh)
  have res: "quantizer_add_color m2 a c = Inr \<lparr>levels = lv', root = t'\<rparr>"
    using run by (simp add: quantizer_add_color_def)
  have v: "(node_at t' p \<noteq> None) = prefix p (route m2 c 0)" for p
    using add_color_valid [OF run wf, of p] unfolding ia(1)
    by (auto simp: node_at_fresh)
  have "pc_at t' (route m2 c 0) = Some 1"
    using add_color_pc_at [OF run wf, of "route m2 c 0"] unfolding ia(1)
    by (cases "route m2 c 0 = []") (simp_all add: pc_at_def node_at_fresh)
  then have "leaf_at t' (route m2 c 0)"
    by (auto simp: leaf_at_def pc_at_def is_leaf_def)
  with res v show ?thesis by simp
qed

section \<open>The claims\<close>

text \<open>
  C4, as the specification states it, is contradicted by the code: a lookup on the
  default quantizer that never received a colour raises nothing. The method falls off
  the end of its search loop and hands back Python's \<^verbatim>\<open>None\<close>.
\<close>

theorem C4_lookup_on_fresh_counterexample:
  "lookup_on_fresh 8 (Color3 0 0 0) = Inr None"
  by code_simp

text \<open>
  C4, amended: for every depth limit and every colour, \<^verbatim>\<open>get_palette_index\<close> on a
  quantizer to which no colour was ever added returns \<^verbatim>\<open>None\<close> and raises no error:
  the root is not a leaf, the selected slot is empty and no slot holds a child.
\<close>

theorem C4_lookup_on_fresh_returns_None:
  "lookup_on_fresh max_depth c = Inr None"
proof -
  let ?root = "OctreeNode (Color3 0 0 0) 0 0 (replicate 8 None)"
  have "get_palette_index ?root c 0 = None"
    by (subst get_palette_index.simps)
       (auto simp: is_leaf_def child_at_def first_child_replicate_None Let_def
             split: option.splits)
  then show ?thesis
    by (simp add: lookup_on_fresh_def OctreeQuantizer_init_value
          quantizer_get_palette_index_def)
qed

text \<open>
  C8: \<^verbatim>\<open>get_palette_index\<close> on a leaf returns the node's palette index. On a node that
  is not a leaf, at a level from 0 to 7, it continues at \<open>level + 1\<close> in the child the
  specification's branch index selects when that child exists, and otherwise in the
  first existing child in slot order: the child in slot \<open>i < 8\<close> such that every slot
  before \<open>i\<close> is empty.
\<close>

theorem C8_get_palette_index_descent:
  "(is_leaf self \<longrightarrow> get_palette_index self c level = Some (palette_index self)) \<and>
   (\<not> is_leaf self \<and> level \<le> 7 \<longrightarrow>
      (\<forall>ch. child_at self (spec_branch_index c level) = Some ch \<longrightarrow>
          get_palette_index self c level = get_palette_index ch c (level + 1)) \<and>
      (child_at self (spec_branch_index c level) = None \<longrightarrow>
          (\<forall>i ch. i < 8 \<and> child_at self i = Some ch \<and> (\<forall>j<i. child_at self j = None) \<longrightarrow>
              get_palette_index self c level = get_palette_index ch c (level + 1))))"
proof (intro conjI impI allI)
  assume "is_leaf self"
  then show "get_palette_index self c level = Some (palette_index self)"
    by (subst get_palette_index.simps) simp
next
  fix ch
  assume "\<not> is_leaf self \<and> level \<le> 7"
    and "child_at self (spec_branch_index c level) = Some ch"
  then show "get_palette_index self c level = get_palette_index ch c (level + 1)"
    by (subst get_palette_index.simps) (simp add: get_color_index_is_branch_index)
next
  fix i ch
  assume nl: "\<not> is_leaf self \<and> level \<le> 7"
    and empty: "child_at self (spec_branch_index c level) = None"
    and first: "i < 8 \<and> child_at self i = Some ch \<and> (\<forall>j<i. child_at self j = None)"
  from first have i: "i < length (children self)" and ch: "children self ! i = Some ch"
    by (auto simp: child_at_def split: if_splits)
  from first i have "\<forall>j<i. children self ! j = None"
    by (auto simp: child_at_def split: if_splits)
  with i ch have "first_child (children self) = Some ch"
    by (rule first_child_least)
  with nl empty show "get_palette_index self c level = get_palette_index ch c (level + 1)"
    by (subst get_palette_index.simps) (simp add: get_color_index_is_branch_index)
qed

text \<open>
  The fallback at work: black selects slot 0 of a node whose only children sit in
  slots 3 and 7, so the lookup continues in slot 3 and returns that leaf's index.
\<close>

theorem C8_get_palette_index_descent_witness:
  "\<not> is_leaf (OctreeNode (Color3 0 0 0) 0 0
       [None, None, None, Some (OctreeNode (Color3 9 9 9) 3 5 (replicate 8 None)),
        None, None, None, Some (OctreeNode (Color3 255 255 255) 1 6 (replicate 8 None))]) \<and>
   (0::nat) \<le> 7 \<and>
   child_at (OctreeNode (Color3 0 0 0) 0 0
       [None, None, None, Some (OctreeNode (Color3 9 9 9) 3 5 (replicate 8 None)),
        None, None, None, Some (OctreeNode (Color3 255 255 255) 1 6 (replicate 8 None))])
     (spec_branch_index (Color3 0 0 0) 0) = None \<and>
   get_palette_index (OctreeNode (Color3 0 0 0) 0 0
       [None, None, None, Some (OctreeNode (Color3 9 9 9) 3 5 (replicate 8 None)),
        None, None, None, Some (OctreeNode (Color3 255 255 255) 1 6 (replicate 8 None))])
     (Color3 0 0 0) 0 = Some 5"
proof -
  let ?leaf = "OctreeNode (Color3 9 9 9) 3 5 (replicate 8 None)"
  let ?n = "OctreeNode (Color3 0 0 0) 0 0
       [None, None, None, Some ?leaf,
        None, None, None, Some (OctreeNode (Color3 255 255 255) 1 6 (replicate 8 None))]"
  have nl: "\<not> is_leaf ?n \<and> (0::nat) \<le> 7" by (simp add: is_leaf_def)
  have empty: "child_at ?n (spec_branch_index (Color3 0 0 0) 0) = None"
    by (simp add: child_at_def spec_branch_index_def Color3_def)
  have first: "(3::nat) < 8 \<and> child_at ?n 3 = Some ?leaf \<and> (\<forall>j<3. child_at ?n j = None)"
    by (auto simp: child_at_def less_Suc_eq numeral_3_eq_3)
  have leaf: "is_leaf ?leaf" by (simp add: is_leaf_def)
  from C8_get_palette_index_descent [of ?n "Color3 0 0 0" 0] nl empty first
  have "get_palette_index ?n (Color3 0 0 0) 0 = get_palette_index ?leaf (Color3 0 0 0) (0 + 1)"
    by blast
  moreover from C8_get_palette_index_descent [of ?leaf "Color3 0 0 0" "0 + 1"] leaf
  have "get_palette_index ?leaf (Color3 0 0 0) (0 + 1) = Some 5" by simp
  ultimately show ?thesis using nl empty by simp
qed

text \<open>
  C1: with the default depth limit 8, after adding \<open>(0,0,0)\<close>, \<open>(1,1,1)\<close>,
  \<open>(255,255,255)\<close> and \<open>(254,254,254)\<close>, \<^verbatim>\<open>make_palette(2)\<close> returns exactly the two
  entries \<open>(0,0,0)\<close> and \<open>(254,254,254)\<close>; afterwards the two near-black colours look
  up index 0 and the two near-white colours look up index 1.
\<close>

theorem C1_four_colour_scenario:
  "quantize_and_lookup 8
     [Color3 0 0 0, Color3 1 1 1, Color3 255 255 255, Color3 254 254 254] 2
     [Color3 0 0 0, Color3 1 1 1, Color3 255 255 255, Color3 254 254 254] =
   Inr ([Color3 0 0 0, Color3 254 254 254], [Some 0, Some 0, Some 1, Some 1])"
  by code_simp

text \<open>
  C2: for a quantizer constructed with a depth limit of at least 1 (the specification's
  own range for \<open>maxDepth\<close>, which includes the default 8), every non-empty sequence of
  added colours and every \<open>targetCount > 0\<close>, \<^verbatim>\<open>make_palette\<close> returns without error and
  the palette has more than 0 and at most \<open>targetCount\<close> entries.
\<close>

theorem C2_palette_length:
  assumes "1 \<le> max_depth" and "cs \<noteq> []" and "0 < color_count"
  shows "\<exists>q palette. quantize max_depth cs color_count = Inr (q, palette) \<and>
           0 < length palette \<and> int (length palette) \<le> color_count"
proof -
  from quantize_run [of max_depth cs color_count] obtain q where
    b: "built max_depth q"
    and leafs: "\<forall>c\<in>set cs. \<exists>k>0. pc_at (root q) (route max_depth c 0) = Some k"
    and qz: "quantize max_depth cs color_count = make_palette max_depth q color_count" by blast
  from make_palette_run [OF b, of color_count] obtain q1 pal where
    g: "grows (root q) (root q1)"
    and mp: "make_palette max_depth q color_count =
             Inr (q1\<lparr>root := number_leaves (take (nat color_count) (get_leaves q1)) 0 (root q1)\<rparr>, pal)"
    and pal: "map Some pal = map (avg_at (root q1)) (take (nat color_count) (get_leaves q1))"
    by blast
  from assms(2) obtain c where "c \<in> set cs" by (cases cs) auto
  with leafs obtain k where k: "0 < k" "pc_at (root q) (route max_depth c 0) = Some k" by blast
  with g obtain k' where "pc_at (root q1) (route max_depth c 0) = Some k'" "k \<le> k'"
    unfolding grows_def by blast
  with k(1) have "leaf_at (root q1) (route max_depth c 0)"
    by (auto simp: leaf_at_def pc_at_def is_leaf_def)
  moreover from assms(1) have "route max_depth c 0 \<noteq> []"
    using length_route [of max_depth c 0] by auto
  ultimately have "get_leaves q1 \<noteq> []"
    unfolding get_leaves_def by (rule get_leaf_nodes_nonempty)
  then have "0 < length (get_leaves q1)" by simp
  moreover from pal have "length pal = length (take (nat color_count) (get_leaves q1))"
    by (metis length_map)
  ultimately have "0 < length pal \<and> int (length pal) \<le> color_count"
    using assms(3) by auto
  with qz mp show ?thesis by simp
qed

text \<open>Two colours and a target of 1 under the default depth limit.\<close>

theorem C2_palette_length_witness:
  "(1::int) \<le> 8 \<and> [Color3 0 0 0, Color3 255 255 255] \<noteq> [] \<and> (0::int) < 1 \<and>
   (\<exists>q palette. quantize 8 [Color3 0 0 0, Color3 255 255 255] 1 = Inr (q, palette) \<and>
       0 < length palette \<and> int (length palette) \<le> 1)"
  using C2_palette_length [of 8 "[Color3 0 0 0, Color3 255 255 255]" 1] by simp

text \<open>
  C3, as the specification states it, is contradicted by the code: \<^verbatim>\<open>make_palette(0)\<close>
  and \<^verbatim>\<open>make_palette(-1)\<close> return an empty palette, and a quantizer constructed with
  \<open>maxDepth = 0\<close> is accepted and goes through all three phases. No call raises.
\<close>

theorem C3_invalid_configuration_counterexample:
  "quantize_and_lookup 8 [Color3 0 0 0] 0 [] = Inr ([], []) \<and>
   quantize_and_lookup 8 [Color3 0 0 0] (- 1) [] = Inr ([], []) \<and>
   quantize_and_lookup 0 [Color3 5 5 5] 1 [Color3 5 5 5] = Inr ([], [Some 0])"
  by code_simp

text \<open>
  C3, amended: the code checks neither argument. For every depth limit and every
  sequence of colours, \<^verbatim>\<open>make_palette\<close> with \<open>targetCount \<le> 0\<close> raises nothing and returns
  the empty palette; constructing a quantizer with \<open>maxDepth < 1\<close> raises nothing and
  gives a quantizer whose level registry has no key.
\<close>

theorem C3_invalid_configuration_accepted:
  "(color_count \<le> 0 \<longrightarrow> (\<exists>q. quantize max_depth cs color_count = Inr (q, []))) \<and>
   (max_depth < 1 \<longrightarrow>
      (\<exists>q. OctreeQuantizer_init max_depth = Inr (max_depth, q) \<and> (\<forall>i. levels q i = None)))"
proof (intro conjI impI)
  assume le: "color_count \<le> 0"
  from quantize_run [of max_depth cs color_count] obtain q where
    b: "built max_depth q"
    and qz: "quantize max_depth cs color_count = make_palette max_depth q color_count" by blast
  from make_palette_run [OF b, of color_count] obtain q1 pal where
    mp: "make_palette max_depth q color_count =
             Inr (q1\<lparr>root := number_leaves (take (nat color_count) (get_leaves q1)) 0 (root q1)\<rparr>, pal)"
    and pal: "map Some pal = map (avg_at (root q1)) (take (nat color_count) (get_leaves q1))"
    by blast
  from pal le have "pal = []" by simp
  with qz mp show "\<exists>q. quantize max_depth cs color_count = Inr (q, [])" by simp
next
  assume "max_depth < 1"
  then show "\<exists>q. OctreeQuantizer_init max_depth = Inr (max_depth, q) \<and> (\<forall>i. levels q i = None)"
    by (simp add: OctreeQuantizer_init_value)
qed

text \<open>Depth limit 0 and target 0 at once.\<close>

theorem C3_invalid_configuration_accepted_witness:
  "(0::int) \<le> 0 \<and> (0::int) < 1 \<and>
   (\<exists>q. quantize 0 [Color3 1 2 3] 0 = Inr (q, [])) \<and>
   (\<exists>q. OctreeQuantizer_init 0 = Inr (0, q) \<and> (\<forall>i. levels q i = None))"
  using C3_invalid_configuration_accepted [of 0 0 "[Color3 1 2 3]"] by simp




text \<open>
  C7, as the specification states it, is contradicted by the code. A quantizer
  constructed with depth limit 8 builds, from the four colours of C1, a tree whose
  lookups separate dark from light; when a second quantizer is constructed with depth
  limit 1 in between, the same calls on the first quantizer answer 0 for all four
  colours. A quantizer constructed with depth limit 2 quantizes one colour; after a
  second quantizer is constructed with depth limit 8, its \<^verbatim>\<open>add_color\<close> raises
  \<^verbatim>\<open>KeyError\<close>.
\<close>

theorem C7_shared_depth_limit_counterexample:
  "quantize_and_lookup 8
     [Color3 0 0 0, Color3 1 1 1, Color3 255 255 255, Color3 254 254 254] 2
     [Color3 0 0 0, Color3 1 1 1, Color3 255 255 255, Color3 254 254 254] =
     Inr ([Color3 0 0 0, Color3 254 254 254], [Some 0, Some 0, Some 1, Some 1]) \<and>
   quantize_first_of_two 8 1
     [Color3 0 0 0, Color3 1 1 1, Color3 255 255 255, Color3 254 254 254] 2
     [Color3 0 0 0, Color3 1 1 1, Color3 255 255 255, Color3 254 254 254] =
     Inr ([Color3 0 0 0, Color3 254 254 254], [Some 0, Some 0, Some 0, Some 0]) \<and>
   quantize_and_lookup 2 [Color3 0 0 0] 1 [Color3 0 0 0] = Inr ([Color3 0 0 0], [Some 0]) \<and>
   quantize_first_of_two 2 8 [Color3 0 0 0] 1 [Color3 0 0 0] = Inl KeyError"
  by code_simp

text \<open>
  C7, amended: the maximum depth is an attribute of the class, assigned by every
  construction. After a second quantizer is constructed with \<open>maxDepth = m2\<close>, the class
  attribute is \<open>m2\<close>, the first quantizer's own tree and registry are as its constructor
  left them, and every later call on the first quantizer runs under the depth limit
  \<open>m2\<close>, whatever limit \<open>m1\<close> it was constructed with: its \<^verbatim>\<open>add_color\<close> is
  \<^verbatim>\<open>add_color\<close> under \<open>m2\<close>, and so are its three phases. When \<open>m2 \<le> m1 + 1\<close> (the
  registry then has every key the call needs) the first colour added to it is routed
  down to depth \<open>m2\<close>: the nodes of its tree are exactly the prefixes of the colour's
  route under \<open>m2\<close> and the leaf is at the end of that route. When \<open>m2 = m1\<close> the later
  behaviour of the first quantizer is that of a quantizer constructed alone.
\<close>

theorem C7_shared_depth_limit:
  "\<exists>a b. OctreeQuantizer_init m1 = Inr (m1, a) \<and>
      construct_two m1 m2 = Inr \<lparr>class_MAX_DEPTH = m2, first = a, second = b\<rparr> \<and>
      first_add_after_second m1 m2 c = quantizer_add_color m2 a c \<and>
      quantize_first_of_two m1 m2 cs color_count queries =
        (case add_colors m2 a cs of
           Inl e \<Rightarrow> Inl e
         | Inr q \<Rightarrow>
             (case make_palette m2 q color_count of
                Inl e \<Rightarrow> Inl e
              | Inr (q', palette) \<Rightarrow>
                  Inr (palette, map (quantizer_get_palette_index q') queries))) \<and>
      (m2 \<le> m1 + 1 \<longrightarrow>
         (\<exists>q. first_add_after_second m1 m2 c = Inr q \<and>
              (\<forall>p. (node_at (root q) p \<noteq> None) = prefix p (route m2 c 0)) \<and>
              leaf_at (root q) (route m2 c 0) \<and> length (route m2 c 0) = nat m2)) \<and>
      (m2 = m1 \<longrightarrow>
         quantize_first_of_two m1 m2 cs color_count queries =
           quantize_and_lookup m1 cs color_count queries)"
proof -
  obtain a where a: "OctreeQuantizer_init m1 = Inr (m1, a)"
    by (simp add: OctreeQuantizer_init_value)
  obtain b where b: "OctreeQuantizer_init m2 = Inr (m2, b)"
    by (simp add: OctreeQuantizer_init_value)
  have c2: "construct_two m1 m2 = Inr \<lparr>class_MAX_DEPTH = m2, first = a, second = b\<rparr>"
    by (simp add: construct_two_def a b)
  have fa: "first_add_after_second m1 m2 c = quantizer_add_color m2 a c"
    by (simp add: first_add_after_second_def c2)
  have qf: "quantize_first_of_two m1 m2 cs color_count queries =
        (case add_colors m2 a cs of
           Inl e \<Rightarrow> Inl e
         | Inr q \<Rightarrow>
             (case make_palette m2 q color_count of
                Inl e \<Rightarrow> Inl e
              | Inr (q', palette) \<Rightarrow>
                  Inr (palette, map (quantizer_get_palette_index q') queries)))"
    by (simp add: quantize_first_of_two_def c2 cong: sum.case_cong)
  have deep: "\<exists>q. first_add_after_second m1 m2 c = Inr q \<and>
              (\<forall>p. (node_at (root q) p \<noteq> None) = prefix p (route m2 c 0)) \<and>
              leaf_at (root q) (route m2 c 0) \<and> length (route m2 c 0) = nat m2"
    if "m2 \<le> m1 + 1"
    using first_add_under_other_limit [OF a that, of c] unfolding fa
    by (simp add: length_route)
  have same: "quantize_first_of_two m1 m2 cs color_count queries =
           quantize_and_lookup m1 cs color_count queries" if "m2 = m1"
    unfolding qf using that
    by (simp add: quantize_and_lookup_def quantize_def a split: sum.splits)
  from a c2 fa qf deep same show ?thesis by blast
qed

text \<open>
  Depth limit 8 for the first quantizer and 1 for the second: white, added to the
  first, becomes a leaf at depth 1 and nothing lies below it. And two quantizers with
  the default depth limit.
\<close>

theorem C7_shared_depth_limit_witness:
  "(1::int) \<le> 8 + 1 \<and>
   route 1 (Color3 255 255 255) 0 = [7] \<and>
   route 8 (Color3 255 255 255) 0 = [7, 7, 7, 7, 7, 7, 7, 7] \<and>
   (\<exists>q. first_add_after_second 8 1 (Color3 255 255 255) = Inr q \<and>
        leaf_at (root q) [7] \<and> node_at (root q) [7, 7] = None) \<and>
   (8::int) = 8 \<and>
   quantize_first_of_two 8 8 [Color3 0 0 0, Color3 255 255 255] 2 [Color3 255 255 255] =
     quantize_and_lookup 8 [Color3 0 0 0, Color3 255 255 255] 2 [Color3 255 255 255] \<and>
   quantize_and_lookup 8 [Color3 0 0 0, Color3 255 255 255] 2 [Color3 255 255 255] =
     Inr ([Color3 0 0 0, Color3 255 255 255], [Some 1])"
proof -
  have r1: "route 1 (Color3 255 255 255) 0 = [7]" by code_simp
  have r8: "route 8 (Color3 255 255 255) 0 = [7, 7, 7, 7, 7, 7, 7, 7]" by code_simp
  have ev: "quantize_and_lookup 8 [Color3 0 0 0, Color3 255 255 255] 2 [Color3 255 255 255] =
     Inr ([Color3 0 0 0, Color3 255 255 255], [Some 1])" by code_simp
  from C7_shared_depth_limit [of 8 1 "Color3 255 255 255" "[]" 0 "[]"]
  obtain q where q: "first_add_after_second 8 1 (Color3 255 255 255) = Inr q"
    "\<forall>p. (node_at (root q) p \<noteq> None) = prefix p (route 1 (Color3 255 255 255) 0)"
    "leaf_at (root q) (route 1 (Color3 255 255 255) 0)"
    by auto
  from q(2) have "node_at (root q) [7, 7] = None"
    unfolding r1 by (metis Cons_prefix_Cons list.distinct(1) prefix_Nil)
  with q(1,3) have one: "\<exists>q. first_add_after_second 8 1 (Color3 255 255 255) = Inr q \<and>
        leaf_at (root q) [7] \<and> node_at (root q) [7, 7] = None"
    unfolding r1 by blast
  from C7_shared_depth_limit [of 8 8 "Color3 255 255 255" "[Color3 0 0 0, Color3 255 255 255]" 2
      "[Color3 255 255 255]"]
  have two: "quantize_first_of_two 8 8 [Color3 0 0 0, Color3 255 255 255] 2 [Color3 255 255 255] =
     quantize_and_lookup 8 [Color3 0 0 0, Color3 255 255 255] 2 [Color3 255 255 255]"
    by auto
  from one two r1 r8 ev show ?thesis by simp
qed

text \<open>
  C10: \<^verbatim>\<open>OctreeNode.__init__\<close> sets the palette index of every new node to 0. After the
  three phases (any depth limit, any colours, any \<open>targetCount\<close>) the leaf at position
  \<open>j\<close> of the enumeration has palette index \<open>j\<close> when \<open>j < targetCount\<close> and still has
  palette index 0 otherwise; a lookup whose descent ends in a leaf at a position of
  \<open>targetCount\<close> or more returns 0.
\<close>

theorem C10_surplus_leaves:
  assumes "quantize max_depth cs n = Inr (q, palette)"
  shows "(\<forall>M level lv self node lv'.
            OctreeNode_init M level lv self = Inr (node, lv') \<longrightarrow> palette_index node = 0) \<and>
         (\<forall>j<length (get_leaves q).
            pi_at (root q) (get_leaves q ! j) = Some (if int j < n then int j else 0)) \<and>
         (\<forall>c j. j < length (get_leaves q) \<and> n \<le> int j \<and>
                 descent (root q) c 0 = Some (get_leaves q ! j) \<longrightarrow>
                 quantizer_get_palette_index q c = Some 0)"
proof -
  from quantize_result [OF assms] obtain t1 where
    t: "root q = number_leaves (take (nat n) (get_leaf_nodes t1 [])) 0 t1"
    and pi0: "\<forall>p k. pi_at t1 p = Some k \<longrightarrow> k = 0" by blast
  have ls: "get_leaves q = get_leaf_nodes t1 []"
    unfolding get_leaves_def t by (rule number_leaves_leaves)
  have idx: "pi_at (root q) (get_leaves q ! j) = Some (if int j < n then int j else 0)"
    if "j < length (get_leaves q)" for j
    using numbered_leaves [OF pi0, of j n] that unfolding ls t by simp
  have "quantizer_get_palette_index q c = Some 0"
    if "j < length (get_leaves q) \<and> n \<le> int j \<and> descent (root q) c 0 = Some (get_leaves q ! j)"
    for c j
    using that idx [of j]
    by (simp add: quantizer_get_palette_index_def get_palette_index_descent)
  moreover have "palette_index node = 0"
    if "OctreeNode_init M level lv self = Inr (node, lv')" for M level lv self node lv'
    using OctreeNode_init_cases [OF that] by simp
  ultimately show ?thesis using idx by blast
qed

text \<open>
  Black and white with a target of 1 under the default depth limit: two leaves remain,
  the white one at position 1 keeps index 0, and white looks up 0.
\<close>

theorem C10_surplus_leaves_witness:
  "lookup_report 8 [Color3 0 0 0, Color3 255 255 255] 1 (Color3 255 255 255) =
     Inr ([Color3 0 0 0], Some 0, Some [7, 7], [[0, 0], [7, 7]],
          [Some (Color3 0 0 0), Some (Color3 255 255 255)]) \<and>
   (\<exists>q palette. quantize 8 [Color3 0 0 0, Color3 255 255 255] 1 = Inr (q, palette) \<and>
      (1::nat) < length (get_leaves q) \<and> (1::int) \<le> int 1 \<and>
      descent (root q) (Color3 255 255 255) 0 = Some (get_leaves q ! 1) \<and>
      pi_at (root q) (get_leaves q ! 0) = Some 0 \<and>
      pi_at (root q) (get_leaves q ! 1) = Some 0 \<and>
      quantizer_get_palette_index q (Color3 255 255 255) = Some 0)"
proof -
  have rep: "lookup_report 8 [Color3 0 0 0, Color3 255 255 255] 1 (Color3 255 255 255) =
     Inr ([Color3 0 0 0], Some 0, Some [7, 7], [[0, 0], [7, 7]],
          [Some (Color3 0 0 0), Some (Color3 255 255 255)])"
    by code_simp
  from quantize_succeeds obtain q palette where
    q: "quantize 8 [Color3 0 0 0, Color3 255 255 255] 1 = Inr (q, palette)" by blast
  from rep have ls: "get_leaves q = [[0, 0], [7, 7]]"
    and d: "descent (root q) (Color3 255 255 255) 0 = Some [7, 7]"
    by (simp_all add: lookup_report_def q)
  note c10 = C10_surplus_leaves [OF q]
  have idx: "pi_at (root q) (get_leaves q ! j) = Some (if int j < 1 then int j else 0)"
    if "j < length (get_leaves q)" for j
    using c10 [THEN conjunct2, THEN conjunct1, rule_format, of j] that by simp
  have look: "quantizer_get_palette_index q c = Some 0"
    if "j < length (get_leaves q) \<and> 1 \<le> int j \<and> descent (root q) c 0 = Some (get_leaves q ! j)"
    for c j
    using c10 [THEN conjunct2, THEN conjunct2, rule_format, of j c] that by simp
  have "pi_at (root q) (get_leaves q ! 0) = Some 0"
    using idx [of 0] ls by simp
  moreover have "pi_at (root q) (get_leaves q ! 1) = Some 0"
    using idx [of 1] ls by simp
  moreover have "quantizer_get_palette_index q (Color3 255 255 255) = Some 0"
    using look [of 1 "Color3 255 255 255"] ls d by simp
  ultimately show ?thesis using rep q ls d by auto
qed

text \<open>
  C9, as the specification states it, is contradicted by the code. After black and
  white were added under the default depth limit, \<^verbatim>\<open>make_palette(1)\<close> leaves two leaves
  and returns the one-entry palette \<open>[(0,0,0)]\<close>. The lookup of white ends in the leaf
  \<open>[7, 7]\<close>, whose average is \<open>(255,255,255)\<close>, and returns index 0, the entry of the
  other leaf: no index was assigned to the leaf white went into.
\<close>

theorem C9_added_colour_lookup_counterexample:
  "lookup_report 8 [Color3 0 0 0, Color3 255 255 255] 1 (Color3 255 255 255) =
     Inr ([Color3 0 0 0], Some 0, Some [7, 7], [[0, 0], [7, 7]],
          [Some (Color3 0 0 0), Some (Color3 255 255 255)])"
  by code_simp

text \<open>
  C9, amended: for a quantizer constructed with a depth limit of at least 1 and every
  colour \<open>c\<close> added before \<^verbatim>\<open>make_palette(targetCount)\<close>, the lookup of \<open>c\<close> afterwards
  follows the path \<open>c\<close> was routed along (it never takes the fallback branch) and ends in
  a leaf of the enumeration, at some position \<open>j\<close>; when \<open>j < targetCount\<close> the lookup
  returns \<open>j\<close>, the palette has an entry \<open>j\<close>, and that entry is the average of that
  leaf. (A leaf at a position of \<open>targetCount\<close> or more is the subject of C10.)
\<close>

theorem C9_added_colour_lookup:
  assumes "1 \<le> max_depth" and "c \<in> set cs"
    and "quantize max_depth cs n = Inr (q, palette)"
  shows "\<exists>r j. prefix r (route max_depth c 0) \<and> descent (root q) c 0 = Some r \<and>
           j < length (get_leaves q) \<and> get_leaves q ! j = r \<and>
           (int j < n \<longrightarrow>
              quantizer_get_palette_index q c = Some (int j) \<and>
              j < length palette \<and> avg_at (root q) r = Some (palette ! j))"
proof -
  from quantize_result [OF assms(3)] assms(1,2) obtain t1 k where
    t: "root q = number_leaves (take (nat n) (get_leaf_nodes t1 [])) 0 t1"
    and pal: "map Some palette = map (avg_at t1) (take (nat n) (get_leaf_nodes t1 []))"
    and pi0: "\<forall>p k. pi_at t1 p = Some k \<longrightarrow> k = 0"
    and k: "0 < k" "pc_at t1 (route max_depth c 0) = Some k"
    and r0: "pc_at t1 [] = Some 0" by blast
  let ?ls = "get_leaf_nodes t1 []"
  have ls: "get_leaves q = ?ls"
    unfolding get_leaves_def t by (rule number_leaves_leaves)
  have pc: "pc_at (root q) p = pc_at t1 p" for p
    unfolding t by (rule number_leaves_pc)
  have la: "leaf_at (root q) p = leaf_at t1 p" for p
    using pc [of p] by (auto simp: leaf_at_def pc_at_def is_leaf_def split: option.splits)
  from k have "leaf_at (root q) (route max_depth c 0)"
    unfolding la by (auto simp: leaf_at_def pc_at_def is_leaf_def)
  from descent_route [OF this] obtain r where
    r: "prefix r (route max_depth c 0)" "descent (root q) c 0 = Some r" "leaf_at (root q) r"
      "\<forall>q'. strict_prefix q' r \<longrightarrow> \<not> leaf_at (root q) q'" by blast
  from r0 have "\<not> leaf_at t1 []" by (simp add: pc_at_def is_leaf_def)
  with r(3) have "r \<noteq> []" unfolding la by auto
  with r(3,4) have "first_leaf t1 r" unfolding la by (simp add: first_leaf_def)
  then have "r \<in> set ?ls" using leaf_nodes_sets(1) [of t1 "[]"] by simp
  then obtain j where j: "j < length ?ls" "?ls ! j = r" by (auto simp: in_set_conv_nth)
  have "quantizer_get_palette_index q c = Some (int j) \<and>
              j < length palette \<and> avg_at (root q) r = Some (palette ! j)" if lt: "int j < n"
  proof -
    from numbered_leaves [OF pi0 j(1), of n] lt j(2) have "pi_at (root q) r = Some (int j)"
      unfolding t by simp
    with r(2) have "quantizer_get_palette_index q c = Some (int j)"
      by (simp add: quantizer_get_palette_index_def get_palette_index_descent)
    moreover from pal have "length palette = length (take (nat n) ?ls)" by (metis length_map)
    with j(1) lt have jl: "j < length palette" by simp
    moreover have "avg_at (root q) r = Some (palette ! j)"
    proof -
      from jl have "map Some palette ! j = Some (palette ! j)" by simp
      moreover from jl pal j(1) lt have "map Some palette ! j = avg_at t1 (?ls ! j)" by simp
      moreover have "avg_at (root q) r = avg_at t1 r" unfolding t by (rule number_leaves_avg)
      ultimately show ?thesis using j(2) by simp
    qed
    ultimately show ?thesis by blast
  qed
  with r(1,2) j ls show ?thesis by auto
qed

text \<open>Black and white with a target of 2 under the default depth limit.\<close>

theorem C9_added_colour_lookup_witness:
  "(1::int) \<le> 8 \<and> Color3 255 255 255 \<in> set [Color3 0 0 0, Color3 255 255 255] \<and>
   lookup_report 8 [Color3 0 0 0, Color3 255 255 255] 2 (Color3 255 255 255) =
     Inr ([Color3 0 0 0, Color3 255 255 255], Some 1, Some [7, 7, 7, 7, 7, 7, 7, 7],
          [[0, 0, 0, 0, 0, 0, 0], [7, 7, 7, 7, 7, 7, 7, 7]],
          [Some (Color3 0 0 0), Some (Color3 255 255 255)]) \<and>
   (\<exists>q palette. quantize 8 [Color3 0 0 0, Color3 255 255 255] 2 = Inr (q, palette) \<and>
      (\<exists>r j. prefix r (route 8 (Color3 255 255 255) 0) \<and>
           descent (root q) (Color3 255 255 255) 0 = Some r \<and>
           j < length (get_leaves q) \<and> get_leaves q ! j = r \<and> int j < 2 \<and>
           quantizer_get_palette_index q (Color3 255 255 255) = Some (int j) \<and>
           j < length palette \<and> avg_at (root q) r = Some (palette ! j)))"
proof -
  have rep: "lookup_report 8 [Color3 0 0 0, Color3 255 255 255] 2 (Color3 255 255 255) =
     Inr ([Color3 0 0 0, Color3 255 255 255], Some 1, Some [7, 7, 7, 7, 7, 7, 7, 7],
          [[0, 0, 0, 0, 0, 0, 0], [7, 7, 7, 7, 7, 7, 7, 7]],
          [Some (Color3 0 0 0), Some (Color3 255 255 255)])"
    by code_simp
  from quantize_succeeds obtain q palette where
    q: "quantize 8 [Color3 0 0 0, Color3 255 255 255] 2 = Inr (q, palette)" by blast
  from rep have ls: "length (get_leaves q) = 2"
    by (simp add: lookup_report_def q)
  have m: "Color3 255 255 255 \<in> set [Color3 0 0 0, Color3 255 255 255]" by simp
  have d: "(1::int) \<le> 8" by simp
  from C9_added_colour_lookup [OF d m q] obtain r j where
    r: "prefix r (route 8 (Color3 255 255 255) 0)"
       "descent (root q) (Color3 255 255 255) 0 = Some r"
       "j < length (get_leaves q)" "get_leaves q ! j = r"
       "int j < 2 \<longrightarrow>
              quantizer_get_palette_index q (Color3 255 255 255) = Some (int j) \<and>
              j < length palette \<and> avg_at (root q) r = Some (palette ! j)" by blast
  from r(3) ls have "int j < 2" by simp
  with r have "\<exists>r j. prefix r (route 8 (Color3 255 255 255) 0) \<and>
           descent (root q) (Color3 255 255 255) 0 = Some r \<and>
           j < length (get_leaves q) \<and> get_leaves q ! j = r \<and> int j < 2 \<and>
           quantizer_get_palette_index q (Color3 255 255 255) = Some (int j) \<and>
           j < length palette \<and> avg_at (root q) r = Some (palette ! j)" by blast
  with rep q d m show ?thesis by blast
qed

text \<open>
  C5 is what the code intends and what it misses at the root. \<^verbatim>\<open>make_palette\<close> keeps
  its count of leaves by \<^verbatim>\<open>leaf_count -= node.remove_leaves()\<close>, and every node below
  the root is reduced after its children have become leaves
  (\<open>remove_leaves_at_below_root\<close>). The root, however, is registered under key 0 in front
  of its own children and is reduced before them, while their counts are still 0.
  Under the default depth limit, with the colours \<open>(0,0,0)\<close>, \<open>(0,0,64)\<close>,
  \<open>(255,255,191)\<close>, \<open>(255,255,255)\<close> and a target of 3: the registry under key 0 is the
  root, then its two children; the reduction loop is left with \<^verbatim>\<open>leaf_count\<close> 3 while the
  enumeration lists 4 leaves and the root is not a leaf; the palette has 3 entries and
  white, whose leaf is the fourth, is looked up as index 0, the entry of black. Under
  depth limit 2 the call on the root is the first call of the loop: it returns 1, the
  root is not a leaf afterwards, and the leaves are 4 before and 4 after.
\<close>

theorem C5_root_reduced_before_its_children:
  "registry_after 8
     [Color3 0 0 0, Color3 0 0 64, Color3 255 255 191, Color3 255 255 255] [0] =
     Inr [Some [[], [0], [7]]] \<and>
   reduction_report 8
     [Color3 0 0 0, Color3 0 0 64, Color3 255 255 191, Color3 255 255 255] 3 =
     Inr (3, 4, False) \<and>
   lookup_report 8
     [Color3 0 0 0, Color3 0 0 64, Color3 255 255 191, Color3 255 255 255] 3
     (Color3 255 255 255) =
     Inr ([Color3 0 0 0, Color3 0 0 64, Color3 255 255 191], Some 0, Some [7, 7],
          [[0, 0], [0, 1], [7, 6], [7, 7]],
          [Some (Color3 0 0 0), Some (Color3 0 0 64), Some (Color3 255 255 191),
           Some (Color3 255 255 255)]) \<and>
   registry_after 2
     [Color3 0 0 0, Color3 0 0 64, Color3 255 255 191, Color3 255 255 255] [1, 0] =
     Inr [Some [], Some [[], [0], [7]]] \<and>
   reduce_root_report 2
     [Color3 0 0 0, Color3 0 0 64, Color3 255 255 191, Color3 255 255 255] =
     Inr (1, False, 4, 4)"
  by code_simp

end
